theory Spec2Isabelle
  imports Main "HOL-Library.Word" "HOL-Library.Log_Nat"
begin

unbundle bit_operations_syntax

section \<open>Exceptions and byte sequences\<close>

text \<open>
  The program is \<^verbatim>\<open>src/dmg_background.py\<close>. Every Python exception that one of its
  functions can raise is a constructor of \<open>error\<close>; a function that can raise returns
  \<open>error + 'a\<close> with \<open>Inl\<close> for the exception.
\<close>

datatype error = StructError | IndexError | ValueError | ZeroDivisionError | OverflowError

definition ebind :: "error + 'a \<Rightarrow> ('a \<Rightarrow> error + 'b) \<Rightarrow> error + 'b" where
  "ebind m f = (case m of Inl e \<Rightarrow> Inl e | Inr v \<Rightarrow> f v)"

type_synonym byte = "8 word"

text \<open>
  \<^verbatim>\<open>xs[i:j]\<close> on a sequence: Python clamps both bounds to the sequence and counts a
  negative bound from the end; it never raises.
\<close>

definition slice_bound :: "nat \<Rightarrow> int \<Rightarrow> nat" where
  "slice_bound n k = (if k < 0 then nat (max 0 (k + int n)) else min (nat k) n)"

definition slice :: "'a list \<Rightarrow> int \<Rightarrow> int \<Rightarrow> 'a list" where
  "slice xs i j =
     (let lo = slice_bound (length xs) i; hi = slice_bound (length xs) j
      in take (hi - lo) (drop lo xs))"

section \<open>The PNG encoder\<close>

text \<open>
  \<^verbatim>\<open>struct.pack('>I', n)\<close>: four bytes, most significant first; \<^verbatim>\<open>struct.error\<close>
  when \<open>n\<close> is not in \<open>[0, 2^32)\<close>.
\<close>

definition be32 :: "int \<Rightarrow> byte list" where
  "be32 n = [word_of_int (n div 16777216), word_of_int (n div 65536),
             word_of_int (n div 256), word_of_int n]"

definition pack_I :: "int \<Rightarrow> error + byte list" where
  "pack_I n = (if 0 \<le> n \<and> n < 4294967296 then Inr (be32 n) else Inl StructError)"

text \<open>
  \<^verbatim>\<open>zlib.crc32\<close>: the CRC-32 of ISO 3309 (reflected polynomial \<open>0xEDB88320\<close>, register
  preset to all ones, result complemented), one byte at a time, eight shifts a byte.
\<close>

definition crc32_shift :: "32 word \<Rightarrow> 32 word" where
  "crc32_shift c = (if bit c 0 then drop_bit 1 c XOR 0xEDB88320 else drop_bit 1 c)"

definition crc32_byte :: "32 word \<Rightarrow> byte \<Rightarrow> 32 word" where
  "crc32_byte c b = (crc32_shift ^^ 8) (c XOR ucast b)"

definition crc32 :: "byte list \<Rightarrow> 32 word" where
  "crc32 bs = foldl crc32_byte 0xFFFFFFFF bs XOR 0xFFFFFFFF"

text \<open>The nested function \<^verbatim>\<open>chunk(chunk_type, data)\<close> of \<^verbatim>\<open>create_png\<close>.\<close>

definition chunk :: "byte list \<Rightarrow> byte list \<Rightarrow> error + byte list" where
  "chunk chunk_type data =
     (let c = chunk_type @ data in
      ebind (pack_I (uint (crc32 c) AND 0xffffffff)) (\<lambda>crc.
      ebind (pack_I (int (length data))) (\<lambda>len.
      Inr (len @ c @ crc))))"

definition png_header :: "byte list" where
  "png_header = [0x89, 0x50, 0x4E, 0x47, 0x0D, 0x0A, 0x1A, 0x0A]"

definition IHDR :: "byte list" where "IHDR = [0x49, 0x48, 0x44, 0x52]"
definition IDAT :: "byte list" where "IDAT = [0x49, 0x44, 0x41, 0x54]"
definition IEND :: "byte list" where "IEND = [0x49, 0x45, 0x4E, 0x44]"

text \<open>
  The two loops of \<^verbatim>\<open>create_png\<close> that build \<^verbatim>\<open>raw_data\<close>: \<open>[0..n - 1]\<close> is
  \<^verbatim>\<open>range(n)\<close>, empty when \<open>n \<le> 0\<close>.
\<close>

definition raw_row :: "int \<Rightarrow> byte list \<Rightarrow> byte list \<Rightarrow> int \<Rightarrow> byte list" where
  "raw_row width pixels raw_data y =
     foldl (\<lambda>raw x. let idx = (y * width + x) * 4 in raw @ slice pixels idx (idx + 4))
           (raw_data @ [0x00]) [0..width - 1]"

definition raw_data :: "int \<Rightarrow> int \<Rightarrow> byte list \<Rightarrow> byte list" where
  "raw_data width height pixels = foldl (raw_row width pixels) [] [0..height - 1]"

text \<open>
  \<^verbatim>\<open>create_png(width, height, pixels)\<close>. \<^verbatim>\<open>zlib.compress(_, 9)\<close> is the library's
  deflate encoder; it is the parameter \<open>zlib_compress\<close>.
\<close>

definition create_png :: "(byte list \<Rightarrow> byte list) \<Rightarrow> int \<Rightarrow> int \<Rightarrow> byte list \<Rightarrow> error + byte list" where
  "create_png zlib_compress width height pixels =
     (let header = png_header in
      ebind (pack_I width) (\<lambda>w.
      ebind (pack_I height) (\<lambda>h.
      ebind (chunk IHDR (w @ h @ [8, 6, 0, 0, 0])) (\<lambda>ihdr.
      ebind (chunk IDAT (zlib_compress (raw_data width height pixels))) (\<lambda>idat.
      ebind (chunk IEND []) (\<lambda>iend.
      Inr (header @ ihdr @ idat @ iend)))))))"

text \<open>
  The chunk layout in the specification's words: payload length, type, payload, CRC-32
  of type and payload, the two numbers in four bytes each, most significant first.
\<close>

definition chunk_layout :: "byte list \<Rightarrow> byte list \<Rightarrow> byte list" where
  "chunk_layout ty payload =
     be32 (int (length payload)) @ ty @ payload @ be32 (uint (crc32 (ty @ payload)))"

section \<open>Reading a PNG back\<close>

text \<open>
  What a PNG reader does with the file, following the specification's words: the chunk
  sequence after the 8-byte signature, the payload of the \<open>IDAT\<close> chunk, the scanlines
  (one filter byte 0, then the row's \<open>4 * width\<close> bytes), and the removal of the filter
  bytes. These definitions are the reader's side; the encoder above is the program's.
\<close>

definition u32_be :: "byte list \<Rightarrow> int" where
  "u32_be bs = foldl (\<lambda>n b. n * 256 + uint b) 0 (take 4 bs)"

function chunks :: "byte list \<Rightarrow> (byte list \<times> byte list) list" where
  "chunks bs =
     (if length bs < 12 then []
      else let n = nat (u32_be bs)
           in (take 4 (drop 4 bs), take n (drop 8 bs)) # chunks (drop (12 + n) bs))"
  by pat_completeness auto
termination
  by (relation "measure length") auto

definition idat_payload :: "byte list \<Rightarrow> byte list option" where
  "idat_payload png = map_of (chunks (drop 8 png)) IDAT"

definition scanlines :: "nat \<Rightarrow> nat \<Rightarrow> byte list \<Rightarrow> byte list" where
  "scanlines w h pixels =
     concat (map (\<lambda>y. 0 # take (4 * w) (drop (y * (4 * w)) pixels)) [0..<h])"

fun unfilter :: "nat \<Rightarrow> byte list \<Rightarrow> byte list" where
  "unfilter w [] = []"
| "unfilter w (f # rest) = take (4 * w) rest @ unfilter w (drop (4 * w) rest)"


section \<open>Python numbers\<close>

text \<open>
  A Python float is an IEEE 754 binary64 number: a finite number, one of the two infinities,
  or NaN. A finite float is modelled by the rational number it denotes. The two zeros are
  one value here: the program divides only with \<^verbatim>\<open>/\<close>, which raises on either zero, and no
  other operation it uses tells them apart.

  An arithmetic operation on finite floats computes the exact rational result and rounds it
  to the nearest float, ties to the even significand (\<open>float_round\<close>): 53 significant bits
  for a normal number, multiples of \<open>2^-1074\<close> below \<open>2^-1022\<close>. A rounded result that
  reaches \<open>2^1024\<close> in magnitude is the infinity of that sign.
\<close>

datatype pyfloat = Fin rat | PInf | NInf | NaN

definition pow2 :: "int \<Rightarrow> rat" where
  "pow2 e = 2 powi e"

definition round_half_even :: "rat \<Rightarrow> int" where
  "round_half_even x =
     (let f = \<lfloor>x\<rfloor>; d = x - of_int f
      in if d < 1 / 2 then f else if 1 / 2 < d then f + 1 else if even f then f else f + 1)"

text \<open>\<open>ilog2 x\<close> is the exponent \<open>e\<close> with \<open>2^e \<le> x < 2^(e+1)\<close>, for \<open>x > 0\<close>.\<close>

definition ilog2 :: "rat \<Rightarrow> int" where
  "ilog2 x =
     (let (p, q) = quotient_of x; e = bitlen p - bitlen q
      in if pow2 e \<le> x then e else e - 1)"

text \<open>The spacing of the floats around \<open>x\<close>: \<open>2^(e - 52)\<close>, and \<open>2^-1074\<close> below \<open>2^-1022\<close>.\<close>

definition ulp :: "rat \<Rightarrow> rat" where
  "ulp x = pow2 (max (ilog2 \<bar>x\<bar>) (- 1022) - 52)"

definition float_round :: "rat \<Rightarrow> rat" where
  "float_round x = (if x = 0 then 0 else of_int (round_half_even (x / ulp x)) * ulp x)"

definition fl :: "rat \<Rightarrow> pyfloat" where
  "fl x =
     (let y = float_round x
      in if pow2 1024 \<le> y then PInf else if y \<le> - pow2 1024 then NInf else Fin y)"

text \<open>The rationals that are finite floats.\<close>

definition is_float :: "rat \<Rightarrow> bool" where
  "is_float x \<longleftrightarrow> float_round x = x \<and> \<bar>x\<bar> < pow2 1024"

text \<open>
  The operators \<^verbatim>\<open>-x\<close>, \<^verbatim>\<open>x + y\<close>, \<^verbatim>\<open>x - y\<close>, \<^verbatim>\<open>x * y\<close> and \<^verbatim>\<open>x / y\<close> on two floats. The first
  four never raise; \<^verbatim>\<open>/\<close> raises \<^verbatim>\<open>ZeroDivisionError\<close> when the divisor is zero, whatever the
  dividend.
\<close>

fun float_neg :: "pyfloat \<Rightarrow> pyfloat" where
  "float_neg (Fin x) = Fin (- x)"
| "float_neg PInf = NInf"
| "float_neg NInf = PInf"
| "float_neg NaN = NaN"

fun float_sgn :: "pyfloat \<Rightarrow> int" where
  "float_sgn (Fin x) = (if x < 0 then - 1 else if x = 0 then 0 else 1)"
| "float_sgn PInf = 1"
| "float_sgn NInf = - 1"
| "float_sgn NaN = 0"

definition signed_inf :: "int \<Rightarrow> pyfloat" where
  "signed_inf s = (if s = 0 then NaN else if 0 < s then PInf else NInf)"

fun float_add :: "pyfloat \<Rightarrow> pyfloat \<Rightarrow> pyfloat" where
  "float_add (Fin x) (Fin y) = fl (x + y)"
| "float_add (Fin x) b = b"
| "float_add a (Fin y) = a"
| "float_add a b = (if a = b then a else NaN)"

definition float_sub :: "pyfloat \<Rightarrow> pyfloat \<Rightarrow> pyfloat" where
  "float_sub a b = float_add a (float_neg b)"

fun float_mul :: "pyfloat \<Rightarrow> pyfloat \<Rightarrow> pyfloat" where
  "float_mul (Fin x) (Fin y) = fl (x * y)"
| "float_mul a b = (if a = NaN \<or> b = NaN then NaN else signed_inf (float_sgn a * float_sgn b))"

fun float_div :: "pyfloat \<Rightarrow> pyfloat \<Rightarrow> pyfloat" where
  "float_div (Fin x) (Fin y) = fl (x / y)"
| "float_div (Fin x) b = (if b = NaN then NaN else Fin 0)"
| "float_div a (Fin y) = (if a = NaN then NaN else signed_inf (float_sgn a * float_sgn (Fin y)))"
| "float_div a b = NaN"

definition float_truediv :: "pyfloat \<Rightarrow> pyfloat \<Rightarrow> error + pyfloat" where
  "float_truediv a b = (if b = Fin 0 then Inl ZeroDivisionError else Inr (float_div a b))"

text \<open>\<^verbatim>\<open>x < y\<close> on two floats: false whenever one of them is NaN.\<close>

fun float_less :: "pyfloat \<Rightarrow> pyfloat \<Rightarrow> bool" where
  "float_less (Fin x) (Fin y) = (x < y)"
| "float_less NaN b = False"
| "float_less a NaN = False"
| "float_less NInf b = (b \<noteq> NInf)"
| "float_less a PInf = (a \<noteq> PInf)"
| "float_less a b = False"

text \<open>
  \<^verbatim>\<open>math.sqrt\<close> on a finite nonnegative float: the correctly rounded square root. \<open>isqrt n\<close>
  is the integer square root; the significand is the integer nearest to the root of the
  scaled argument.
\<close>

function isqrt :: "int \<Rightarrow> int" where
  "isqrt n =
     (if n < 2 then n
      else let r = 2 * isqrt (n div 4) in if (r + 1) * (r + 1) \<le> n then r + 1 else r)"
  by pat_completeness auto
termination
  by (relation "measure nat") auto

definition float_sqrt :: "rat \<Rightarrow> rat" where
  "float_sqrt x =
     (if x \<le> 0 then 0
      else let q = pow2 (ilog2 x div 2 - 52);
               n = x / (q * q);
               t = isqrt \<lfloor>n\<rfloor>;
               m = of_int (t * t + t) + 1 / 4
           in of_int (if n < m then t else if m < n then t + 1 else if even t then t else t + 1) * q)"

text \<open>
  The arguments of the drawing functions are Python numbers, integers or floats, and
  Python chooses the operation by the types it meets. Two integers are added, subtracted
  and multiplied exactly; as soon as one operand is a float the other is converted to a
  float, which raises \<^verbatim>\<open>OverflowError\<close> for an integer too large, and the float operation is
  used.
\<close>

datatype pynum = PyInt int | PyFloat pyfloat

fun to_float :: "pynum \<Rightarrow> error + pyfloat" where
  "to_float (PyInt n) = (case fl (of_int n) of Fin y \<Rightarrow> Inr (Fin y) | _ \<Rightarrow> Inl OverflowError)"
| "to_float (PyFloat x) = Inr x"

definition float_op ::
  "(pyfloat \<Rightarrow> pyfloat \<Rightarrow> error + pyfloat) \<Rightarrow> pynum \<Rightarrow> pynum \<Rightarrow> error + pynum" where
  "float_op f a b =
     ebind (to_float a) (\<lambda>x. ebind (to_float b) (\<lambda>y. ebind (f x y) (\<lambda>z. Inr (PyFloat z))))"

fun num_neg :: "pynum \<Rightarrow> pynum" where
  "num_neg (PyInt n) = PyInt (- n)"
| "num_neg (PyFloat x) = PyFloat (float_neg x)"

fun num_add :: "pynum \<Rightarrow> pynum \<Rightarrow> error + pynum" where
  "num_add (PyInt m) (PyInt n) = Inr (PyInt (m + n))"
| "num_add a b = float_op (\<lambda>x y. Inr (float_add x y)) a b"

fun num_sub :: "pynum \<Rightarrow> pynum \<Rightarrow> error + pynum" where
  "num_sub (PyInt m) (PyInt n) = Inr (PyInt (m - n))"
| "num_sub a b = float_op (\<lambda>x y. Inr (float_sub x y)) a b"

fun num_mul :: "pynum \<Rightarrow> pynum \<Rightarrow> error + pynum" where
  "num_mul (PyInt m) (PyInt n) = Inr (PyInt (m * n))"
| "num_mul a b = float_op (\<lambda>x y. Inr (float_mul x y)) a b"

text \<open>
  \<^verbatim>\<open>a / b\<close>. Two integers give the float nearest to the exact quotient, or
  \<^verbatim>\<open>OverflowError\<close> when that is no finite float.
\<close>

fun num_truediv :: "pynum \<Rightarrow> pynum \<Rightarrow> error + pynum" where
  "num_truediv (PyInt m) (PyInt n) =
     (if n = 0 then Inl ZeroDivisionError
      else case fl (of_int m / of_int n) of Fin q \<Rightarrow> Inr (PyFloat (Fin q)) | _ \<Rightarrow> Inl OverflowError)"
| "num_truediv a b = float_op float_truediv a b"

text \<open>
  \<^verbatim>\<open>a ** 2\<close>. An integer is squared exactly. For a finite float CPython calls the C
  library's \<^verbatim>\<open>pow(x, 2.0)\<close> and raises \<^verbatim>\<open>OverflowError\<close> when the library reports a range
  error; the library's result need not be the correctly rounded square, so it is the
  parameter \<open>c_pow\<close>, which maps the finite float \<open>x\<close> to what \<^verbatim>\<open>x ** 2\<close> gives or raises.
  The infinities and NaN are answered by CPython itself.
\<close>

fun num_pow2 :: "(rat \<Rightarrow> error + pyfloat) \<Rightarrow> pynum \<Rightarrow> error + pynum" where
  "num_pow2 c_pow (PyInt n) = Inr (PyInt (n * n))"
| "num_pow2 c_pow (PyFloat (Fin x)) = ebind (c_pow x) (\<lambda>z. Inr (PyFloat z))"
| "num_pow2 c_pow (PyFloat NaN) = Inr (PyFloat NaN)"
| "num_pow2 c_pow (PyFloat x) = Inr (PyFloat PInf)"

text \<open>
  Comparisons between numbers are exact, also between an integer and a float: the
  integer is not rounded first.
\<close>

fun exact :: "pynum \<Rightarrow> pyfloat" where
  "exact (PyInt n) = Fin (of_int n)"
| "exact (PyFloat x) = x"

definition num_less :: "pynum \<Rightarrow> pynum \<Rightarrow> bool" where
  "num_less a b = float_less (exact a) (exact b)"

definition num_eq :: "pynum \<Rightarrow> pynum \<Rightarrow> bool" where
  "num_eq a b \<longleftrightarrow> exact a = exact b \<and> exact a \<noteq> NaN"

text \<open>
  \<^verbatim>\<open>min(a, b)\<close> and \<^verbatim>\<open>max(a, b)\<close> keep the first argument unless the second is strictly
  smaller (greater); with a NaN among them the first argument is kept.
\<close>

definition py_min :: "pynum \<Rightarrow> pynum \<Rightarrow> pynum" where
  "py_min a b = (if num_less b a then b else a)"

definition py_max :: "pynum \<Rightarrow> pynum \<Rightarrow> pynum" where
  "py_max a b = (if num_less a b then b else a)"

text \<open>
  \<^verbatim>\<open>int(x)\<close> truncates a finite float towards zero, and raises \<^verbatim>\<open>OverflowError\<close> on an
  infinity and \<^verbatim>\<open>ValueError\<close> on NaN.
\<close>

definition py_int :: "rat \<Rightarrow> int" where
  "py_int x = (if 0 \<le> x then \<lfloor>x\<rfloor> else \<lceil>x\<rceil>)"

fun num_int :: "pynum \<Rightarrow> error + int" where
  "num_int (PyInt n) = Inr n"
| "num_int (PyFloat (Fin x)) = Inr (py_int x)"
| "num_int (PyFloat NaN) = Inl ValueError"
| "num_int (PyFloat x) = Inl OverflowError"

text \<open>
  \<^verbatim>\<open>math.sqrt(a)\<close> converts its argument to a float, raises \<^verbatim>\<open>ValueError\<close> on a negative
  number and returns a float.
\<close>

definition math_sqrt :: "pynum \<Rightarrow> error + pynum" where
  "math_sqrt a =
     ebind (to_float a) (\<lambda>x.
     case x of
       Fin v \<Rightarrow> if v < 0 then Inl ValueError else Inr (PyFloat (Fin (float_sqrt v)))
     | PInf \<Rightarrow> Inr (PyFloat PInf)
     | NInf \<Rightarrow> Inl ValueError
     | NaN \<Rightarrow> Inr (PyFloat NaN))"


section \<open>The pixel buffer\<close>

text \<open>
  The canvas is a \<^verbatim>\<open>bytearray\<close>: reading an item gives an integer in \<open>[0, 255]\<close>; an index
  outside the array raises \<^verbatim>\<open>IndexError\<close> (a negative index counts from the end), and
  storing a value outside \<open>[0, 255]\<close> raises \<^verbatim>\<open>ValueError\<close>.
\<close>

definition py_index :: "nat \<Rightarrow> int \<Rightarrow> error + nat" where
  "py_index n i =
     (let j = (if i < 0 then i + int n else i)
      in if 0 \<le> j \<and> j < int n then Inr (nat j) else Inl IndexError)"

definition getitem :: "byte list \<Rightarrow> int \<Rightarrow> error + int" where
  "getitem pixels i = ebind (py_index (length pixels) i) (\<lambda>j. Inr (uint (pixels ! j)))"

definition setitem :: "byte list \<Rightarrow> int \<Rightarrow> int \<Rightarrow> error + byte list" where
  "setitem pixels i v =
     ebind (py_index (length pixels) i) (\<lambda>j.
     if 0 \<le> v \<and> v < 256 then Inr (pixels[j := word_of_int v]) else Inl ValueError)"

text \<open>A \<^verbatim>\<open>for\<close> loop over a list, stopping at the first exception.\<close>

fun efoldl :: "('s \<Rightarrow> 'a \<Rightarrow> error + 's) \<Rightarrow> 's \<Rightarrow> 'a list \<Rightarrow> error + 's" where
  "efoldl f s [] = Inr s"
| "efoldl f s (x # xs) = ebind (f s x) (\<lambda>s'. efoldl f s' xs)"


section \<open>The compositor\<close>

text \<open>
  The expression \<^verbatim>\<open>min(255, int(c * fa + pixels[i] * (1 - fa)))\<close>, which \<^verbatim>\<open>set_pixel\<close>
  evaluates for each of the three colour channels.
\<close>

definition blend_channel :: "byte list \<Rightarrow> int \<Rightarrow> int \<Rightarrow> pynum \<Rightarrow> error + int" where
  "blend_channel pixels i c fa =
     ebind (num_mul (PyInt c) fa) (\<lambda>src.
     ebind (getitem pixels i) (\<lambda>p.
     ebind (num_sub (PyInt 1) fa) (\<lambda>k.
     ebind (num_mul (PyInt p) k) (\<lambda>dst.
     ebind (num_add src dst) (\<lambda>v.
     ebind (num_int v) (\<lambda>n.
     Inr (min 255 n)))))))"

text \<open>
  \<^verbatim>\<open>set_pixel(pixels, width, height, x, y, r, g, b, a)\<close>, with integer arguments. The buffer
  is returned updated; when an exception is raised the result is the exception.
\<close>

definition set_pixel ::
  "byte list \<Rightarrow> int \<Rightarrow> int \<Rightarrow> int \<Rightarrow> int \<Rightarrow> int \<Rightarrow> int \<Rightarrow> int \<Rightarrow> int \<Rightarrow> error + byte list" where
  "set_pixel pixels width height x y r g b a =
     (if 0 \<le> x \<and> x < width \<and> 0 \<le> y \<and> y < height then
        (let idx = (y * width + x) * 4 in
         ebind (getitem pixels (idx + 3)) (\<lambda>old_a.
         if old_a = 0 then
           ebind (setitem pixels idx r) (\<lambda>p1.
           ebind (setitem p1 (idx + 1) g) (\<lambda>p2.
           ebind (setitem p2 (idx + 2) b) (\<lambda>p3.
           setitem p3 (idx + 3) a)))
         else
           ebind (num_truediv (PyInt a) (PyFloat (Fin 255))) (\<lambda>fa.
           ebind (blend_channel pixels idx r fa) (\<lambda>v0.
           ebind (setitem pixels idx v0) (\<lambda>p1.
           ebind (blend_channel p1 (idx + 1) g fa) (\<lambda>v1.
           ebind (setitem p1 (idx + 1) v1) (\<lambda>p2.
           ebind (blend_channel p2 (idx + 2) b fa) (\<lambda>v2.
           ebind (setitem p2 (idx + 2) v2) (\<lambda>p3.
           setitem p3 (idx + 3) (min 255 (old_a + a)))))))))))
      else Inr pixels)"

section \<open>The rasterizer\<close>

text \<open>
  Coordinates, radii and thicknesses are Python numbers, integers or floats; pixel
  positions, canvas sizes, colour channels and alphas are Python integers.

  The body of the two loops of \<^verbatim>\<open>draw_thick_line\<close>, for the pixel \<open>(px, py)\<close>.
\<close>

definition thick_line_pixel ::
  "(rat \<Rightarrow> error + pyfloat) \<Rightarrow> int \<Rightarrow> int \<Rightarrow> pynum \<Rightarrow> pynum \<Rightarrow> pynum \<Rightarrow> pynum \<Rightarrow> pynum \<Rightarrow> pynum
   \<Rightarrow> int \<Rightarrow> int \<Rightarrow> int \<Rightarrow> int \<Rightarrow> int \<Rightarrow> byte list \<Rightarrow> int \<Rightarrow> error + byte list" where
  "thick_line_pixel c_pow width height x1 y1 dx dy line_length thickness r g b a py pixels px =
     ebind (num_sub (PyInt px) x1) (\<lambda>ux.
     ebind (num_mul ux dx) (\<lambda>uxd.
     ebind (num_sub (PyInt py) y1) (\<lambda>uy.
     ebind (num_mul uy dy) (\<lambda>uyd.
     ebind (num_add uxd uyd) (\<lambda>num.
     ebind (num_mul line_length line_length) (\<lambda>len2.
     ebind (num_truediv num len2) (\<lambda>t0.
     let t = py_max (PyInt 0) (py_min (PyInt 1) t0) in
     ebind (num_mul t dx) (\<lambda>tdx.
     ebind (num_add x1 tdx) (\<lambda>closest_x.
     ebind (num_mul t dy) (\<lambda>tdy.
     ebind (num_add y1 tdy) (\<lambda>closest_y.
     ebind (num_sub (PyInt px) closest_x) (\<lambda>ex.
     ebind (num_pow2 c_pow ex) (\<lambda>ex2.
     ebind (num_sub (PyInt py) closest_y) (\<lambda>ey.
     ebind (num_pow2 c_pow ey) (\<lambda>ey2.
     ebind (num_add ex2 ey2) (\<lambda>d2.
     ebind (math_sqrt d2) (\<lambda>dist.
     ebind (num_truediv thickness (PyInt 2)) (\<lambda>h.
     if num_less dist h then
       ebind (num_truediv thickness (PyInt 2)) (\<lambda>h'.
       ebind (num_sub h' (PyInt 1)) (\<lambda>inner.
       ebind (if num_less inner dist
              then ebind (num_truediv thickness (PyInt 2)) (\<lambda>h''.
                   ebind (num_sub h'' dist) (\<lambda>cover.
                   ebind (num_mul (PyInt a) cover) (\<lambda>e.
                   num_int e)))
              else Inr a) (\<lambda>edge_a.
       if edge_a > 0 then set_pixel pixels width height px py r g b edge_a
       else Inr pixels)))
     else Inr pixels))))))))))))))))))"

text \<open>\<^verbatim>\<open>draw_thick_line(pixels, width, height, x1, y1, x2, y2, thickness, r, g, b, a)\<close>.\<close>

definition draw_thick_line ::
  "(rat \<Rightarrow> error + pyfloat) \<Rightarrow> byte list \<Rightarrow> int \<Rightarrow> int \<Rightarrow> pynum \<Rightarrow> pynum \<Rightarrow> pynum \<Rightarrow> pynum \<Rightarrow> pynum
   \<Rightarrow> int \<Rightarrow> int \<Rightarrow> int \<Rightarrow> int \<Rightarrow> error + byte list" where
  "draw_thick_line c_pow pixels width height x1 y1 x2 y2 thickness r g b a =
     ebind (num_sub x2 x1) (\<lambda>dx.
     ebind (num_sub y2 y1) (\<lambda>dy.
     ebind (num_mul dx dx) (\<lambda>dx2.
     ebind (num_mul dy dy) (\<lambda>dy2.
     ebind (num_add dx2 dy2) (\<lambda>l2.
     ebind (math_sqrt l2) (\<lambda>line_length.
     if num_eq line_length (PyInt 0) then Inr pixels
     else
       ebind (num_truediv (num_neg dy) line_length) (\<lambda>nx.
       ebind (num_truediv dx line_length) (\<lambda>ny.
       ebind (num_truediv thickness (PyInt 2)) (\<lambda>h.
       ebind (num_add h (PyInt 1)) (\<lambda>half_t.
       ebind (num_sub (py_min x1 x2) half_t) (\<lambda>lx.
       ebind (num_int lx) (\<lambda>ilx.
       ebind (num_add (py_max x1 x2) half_t) (\<lambda>hx.
       ebind (num_int hx) (\<lambda>ihx.
       ebind (num_sub (py_min y1 y2) half_t) (\<lambda>ly.
       ebind (num_int ly) (\<lambda>ily.
       ebind (num_add (py_max y1 y2) half_t) (\<lambda>hy.
       ebind (num_int hy) (\<lambda>ihy.
       let min_x = max 0 ilx;
           max_x = min (width - 1) ihx;
           min_y = max 0 ily;
           max_y = min (height - 1) ihy
       in efoldl (\<lambda>pixels py.
            efoldl (thick_line_pixel c_pow width height x1 y1 dx dy line_length thickness
                      r g b a py)
                   pixels [min_x..max_x])
          pixels [min_y..max_y]))))))))))))))))))"

text \<open>The body of the two loops of \<^verbatim>\<open>draw_filled_circle\<close>, for the pixel \<open>(px, py)\<close>.\<close>

definition circle_pixel ::
  "(rat \<Rightarrow> error + pyfloat) \<Rightarrow> int \<Rightarrow> int \<Rightarrow> pynum \<Rightarrow> pynum \<Rightarrow> pynum \<Rightarrow> int \<Rightarrow> int \<Rightarrow> int \<Rightarrow> int
   \<Rightarrow> int \<Rightarrow> byte list \<Rightarrow> int \<Rightarrow> error + byte list" where
  "circle_pixel c_pow width height cx cy radius r g b a py pixels px =
     ebind (num_sub (PyInt px) cx) (\<lambda>ex.
     ebind (num_pow2 c_pow ex) (\<lambda>ex2.
     ebind (num_sub (PyInt py) cy) (\<lambda>ey.
     ebind (num_pow2 c_pow ey) (\<lambda>ey2.
     ebind (num_add ex2 ey2) (\<lambda>d2.
     ebind (math_sqrt d2) (\<lambda>dist.
     if num_less dist radius then
       ebind (num_sub radius (PyInt 1)) (\<lambda>inner.
       ebind (if num_less inner dist
              then ebind (num_sub radius dist) (\<lambda>cover.
                   ebind (num_mul (PyInt a) cover) (\<lambda>e.
                   num_int e))
              else Inr a) (\<lambda>edge_a.
       if edge_a > 0 then set_pixel pixels width height px py r g b edge_a
       else Inr pixels))
     else Inr pixels))))))"

text \<open>
  \<^verbatim>\<open>draw_filled_circle(pixels, width, height, cx, cy, radius, r, g, b, a)\<close>. The bounds of
  the inner \<^verbatim>\<open>range\<close> are evaluated again for every row.
\<close>

definition draw_filled_circle ::
  "(rat \<Rightarrow> error + pyfloat) \<Rightarrow> byte list \<Rightarrow> int \<Rightarrow> int \<Rightarrow> pynum \<Rightarrow> pynum \<Rightarrow> pynum
   \<Rightarrow> int \<Rightarrow> int \<Rightarrow> int \<Rightarrow> int \<Rightarrow> error + byte list" where
  "draw_filled_circle c_pow pixels width height cx cy radius r g b a =
     ebind (num_sub cy radius) (\<lambda>ly0.
     ebind (num_sub ly0 (PyInt 1)) (\<lambda>ly1.
     ebind (num_int ly1) (\<lambda>ly.
     ebind (num_add cy radius) (\<lambda>hy0.
     ebind (num_add hy0 (PyInt 2)) (\<lambda>hy1.
     ebind (num_int hy1) (\<lambda>hy.
     efoldl (\<lambda>pixels py.
       ebind (num_sub cx radius) (\<lambda>lx0.
       ebind (num_sub lx0 (PyInt 1)) (\<lambda>lx1.
       ebind (num_int lx1) (\<lambda>lx.
       ebind (num_add cx radius) (\<lambda>hx0.
       ebind (num_add hx0 (PyInt 2)) (\<lambda>hx1.
       ebind (num_int hx1) (\<lambda>hx.
       efoldl (circle_pixel c_pow width height cx cy radius r g b a py)
              pixels [max 0 lx..min width hx - 1])))))))
       pixels [max 0 ly..min height hy - 1]))))))"

text \<open>
  \<^verbatim>\<open>draw_chevron(pixels, width, height, cx, cy, half_h, thickness, r, g, b, a)\<close>. The
  literal \<^verbatim>\<open>0.6\<close> denotes the float nearest to \<open>3/5\<close>.
\<close>

definition literal_0_6 :: rat where
  "literal_0_6 = 5404319552844595 / 9007199254740992"

definition draw_chevron ::
  "(rat \<Rightarrow> error + pyfloat) \<Rightarrow> byte list \<Rightarrow> int \<Rightarrow> int \<Rightarrow> pynum \<Rightarrow> pynum \<Rightarrow> pynum \<Rightarrow> pynum
   \<Rightarrow> int \<Rightarrow> int \<Rightarrow> int \<Rightarrow> int \<Rightarrow> error + byte list" where
  "draw_chevron c_pow pixels width height cx cy half_h thickness r g b a =
     ebind (num_mul half_h (PyFloat (Fin literal_0_6))) (\<lambda>indent.
     ebind (num_sub cx indent) (\<lambda>top_x.
     ebind (num_sub cy half_h) (\<lambda>top_y.
     ebind (num_add cx indent) (\<lambda>mid_x.
     let mid_y = cy in
     ebind (num_sub cx indent) (\<lambda>bot_x.
     ebind (num_add cy half_h) (\<lambda>bot_y.
     ebind (draw_thick_line c_pow pixels width height top_x top_y mid_x mid_y thickness r g b a)
       (\<lambda>pixels.
     draw_thick_line c_pow pixels width height mid_x mid_y bot_x bot_y thickness r g b a)))))))"

section \<open>The scene\<close>

definition WIDTH :: int where "WIDTH = 660"
definition HEIGHT :: int where "HEIGHT = 400"
definition APP_ICON_X :: int where "APP_ICON_X = 160"
definition APPS_ICON_X :: int where "APPS_ICON_X = 500"
definition ICON_Y :: int where "ICON_Y = 190"
definition ICON_SIZE :: int where "ICON_SIZE = 100"

text \<open>\<^verbatim>\<open>draw_arrow(pixels, width, height)\<close>.\<close>

definition draw_arrow :: "(rat \<Rightarrow> error + pyfloat) \<Rightarrow> byte list \<Rightarrow> int \<Rightarrow> int \<Rightarrow> error + byte list" where
  "draw_arrow c_pow pixels width height =
     (let cx = (APP_ICON_X + APPS_ICON_X) div 2;
          cy = ICON_Y;
          ar = 200; ag = 210; ab = 230;
          aa = 200;
          chevron_half_h = 28;
          chevron_thickness = 8;
          spacing = 22
      in ebind (draw_chevron c_pow pixels width height
                  (PyInt (cx - spacing div 2)) (PyInt cy) (PyInt chevron_half_h) (PyInt chevron_thickness)
                  ar ag ab aa) (\<lambda>pixels.
         draw_chevron c_pow pixels width height
                  (PyInt (cx + spacing div 2)) (PyInt cy) (PyInt chevron_half_h) (PyInt chevron_thickness)
                  ar ag ab aa))"

text \<open>
  The gradient loops of \<^verbatim>\<open>main\<close>: \<open>gradient_channel base t\<close> is \<^verbatim>\<open>int(base + t * 6)\<close>, and
  \<open>gradient_pixel\<close> is the body of the inner loop.
\<close>

definition gradient_channel :: "int \<Rightarrow> pynum \<Rightarrow> error + int" where
  "gradient_channel base t =
     ebind (num_mul t (PyInt 6)) (\<lambda>d. ebind (num_add (PyInt base) d) (\<lambda>v. num_int v))"

definition gradient_pixel :: "int \<Rightarrow> byte list \<Rightarrow> int \<Rightarrow> error + byte list" where
  "gradient_pixel y pixels x =
     (let idx = (y * WIDTH + x) * 4 in
      ebind (num_truediv (PyInt y) (PyInt HEIGHT)) (\<lambda>t.
      ebind (gradient_channel 42 t) (\<lambda>bg_r.
      ebind (gradient_channel 42 t) (\<lambda>bg_g.
      ebind (gradient_channel 45 t) (\<lambda>bg_b.
      ebind (setitem pixels idx bg_r) (\<lambda>p1.
      ebind (setitem p1 (idx + 1) bg_g) (\<lambda>p2.
      ebind (setitem p2 (idx + 2) bg_b) (\<lambda>p3.
      setitem p3 (idx + 3) 255))))))))"

definition gradient :: "byte list \<Rightarrow> error + byte list" where
  "gradient pixels =
     efoldl (\<lambda>pixels y. efoldl (gradient_pixel y) pixels [0..WIDTH - 1]) pixels [0..HEIGHT - 1]"

text \<open>
  \<^verbatim>\<open>main\<close>, up to the bytes it writes to the file: \<open>scene\<close> is the buffer after the
  gradient and the arrow, \<open>main\<close> the PNG made from it.
\<close>

definition scene :: "(rat \<Rightarrow> error + pyfloat) \<Rightarrow> error + byte list" where
  "scene c_pow =
     (let pixels = replicate (nat (WIDTH * HEIGHT * 4)) 0 in
      ebind (gradient pixels) (\<lambda>pixels. draw_arrow c_pow pixels WIDTH HEIGHT))"

definition main :: "(rat \<Rightarrow> error + pyfloat) \<Rightarrow> (byte list \<Rightarrow> byte list) \<Rightarrow> error + byte list" where
  "main c_pow zlib_compress =
     ebind (scene c_pow) (\<lambda>pixels. create_png zlib_compress WIDTH HEIGHT pixels)"


section \<open>What the compositor stores\<close>

text \<open>
  The value of \<^verbatim>\<open>min(255, int(c * fa + p * (1 - fa)))\<close> with \<^verbatim>\<open>fa = a / 255.0\<close> for a source
  channel \<open>c\<close>, a stored channel \<open>p\<close> and a source alpha \<open>a\<close>, every operation rounded to a
  float; and the buffer after a call of \<^verbatim>\<open>set_pixel\<close> that hits the pixel whose first byte
  is at index \<open>i\<close>. The statements about \<open>set_pixel\<close> below compare the program with these.
\<close>

definition blend_value :: "int \<Rightarrow> int \<Rightarrow> int \<Rightarrow> int" where
  "blend_value c p a =
     (let fa = float_round (of_int a / 255)
      in min 255 (py_int (float_round (float_round (of_int c * fa)
                                       + float_round (of_int p * float_round (1 - fa))))))"

definition composite :: "byte list \<Rightarrow> nat \<Rightarrow> int \<Rightarrow> int \<Rightarrow> int \<Rightarrow> int \<Rightarrow> byte list" where
  "composite pixels i r g b a =
     (let old_a = uint (pixels ! (i + 3))
      in if old_a = 0
         then pixels[i := word_of_int r, i + 1 := word_of_int g, i + 2 := word_of_int b,
                     i + 3 := word_of_int a]
         else pixels[i := word_of_int (blend_value r (uint (pixels ! i)) a),
                     i + 1 := word_of_int (blend_value g (uint (pixels ! (i + 1))) a),
                     i + 2 := word_of_int (blend_value b (uint (pixels ! (i + 2))) a),
                     i + 3 := word_of_int (min 255 (old_a + a))])"


text \<open>
  A sequence of \<^verbatim>\<open>set_pixel\<close> calls on one canvas, each call given by its arguments
  \<open>(x, y, r, g, b, a)\<close>; the stored alpha of the pixel \<open>(x, y)\<close>; and the alpha update in the
  specification's words: the call's alpha when the pixel was transparent, the saturating
  sum otherwise.
\<close>

definition set_pixels ::
  "byte list \<Rightarrow> int \<Rightarrow> int \<Rightarrow> (int \<times> int \<times> int \<times> int \<times> int \<times> int) list \<Rightarrow> error + byte list" where
  "set_pixels pixels width height calls =
     efoldl (\<lambda>p (x, y, r, g, b, a). set_pixel p width height x y r g b a) pixels calls"

definition alpha_at :: "byte list \<Rightarrow> int \<Rightarrow> int \<Rightarrow> int \<Rightarrow> int" where
  "alpha_at pixels width x y = uint (pixels ! nat ((y * width + x) * 4 + 3))"

definition alpha_step :: "int \<Rightarrow> int \<Rightarrow> int" where
  "alpha_step old_a a = (if old_a = 0 then a else min 255 (old_a + a))"


text \<open>The Python numbers other than the infinite floats and NaN.\<close>

fun finite_num :: "pynum \<Rightarrow> bool" where
  "finite_num (PyInt n) = True"
| "finite_num (PyFloat (Fin x)) = True"
| "finite_num (PyFloat x) = False"

text \<open>
  The four channels of the pixel \<open>(x, y)\<close> of a canvas, and the value of
  \<^verbatim>\<open>int(base + (y / 400) * 6)\<close> when every operation is rounded to a float: the colour
  channel that the gradient loops of \<^verbatim>\<open>main\<close> store in row \<open>y\<close>.
\<close>

definition pixel_at :: "byte list \<Rightarrow> int \<Rightarrow> int \<Rightarrow> int \<Rightarrow> int \<times> int \<times> int \<times> int" where
  "pixel_at pixels width x y =
     (let i = nat ((y * width + x) * 4)
      in (uint (pixels ! i), uint (pixels ! (i + 1)), uint (pixels ! (i + 2)),
          uint (pixels ! (i + 3))))"

definition gradient_value :: "int \<Rightarrow> int \<Rightarrow> int" where
  "gradient_value base y =
     py_int (float_round (of_int base + float_round (float_round (of_int y / 400) * 6)))"

text \<open>
  The colour of row \<open>y\<close> of the gradient in closed form: the integer part of the linear
  interpolation from \<open>(42, 42, 45)\<close> towards \<open>(48, 48, 51)\<close> at \<open>t = y / 400\<close>, opaque.
\<close>

definition gradient_colour :: "int \<Rightarrow> int \<times> int \<times> int \<times> int" where
  "gradient_colour y = (42 + 6 * y div 400, 42 + 6 * y div 400, 45 + 6 * y div 400, 255)"


section \<open>Properties of the encoder\<close>

declare chunks.simps [simp del]



lemma ebind_Inr [simp]: "ebind (Inr v) f = f v"
  by (simp add: ebind_def)

lemma ebind_Inl [simp]: "ebind (Inl e) f = Inl e"
  by (simp add: ebind_def)

lemma uint32_and_mask: "uint (w :: 32 word) AND 0xffffffff = uint w"
proof -
  have "take_bit 32 (uint w) = uint w"
    using uint_bounded [of w] by (simp add: take_bit_int_eq_self)
  then show ?thesis
    by (simp add: take_bit_eq_mask mask_eq_exp_minus_1)
qed

lemma pack_I_crc: "pack_I (uint (w :: 32 word) AND 0xffffffff) = Inr (be32 (uint w))"
  using uint_bounded [of w] by (simp add: uint32_and_mask pack_I_def)

lemma chunk_eq_layout:
  "int (length data) < 4294967296 \<Longrightarrow> chunk ty data = Inr (chunk_layout ty data)"
  by (simp add: chunk_def chunk_layout_def Let_def pack_I_crc) (simp add: pack_I_def)

lemma uint_byte: "uint (word_of_int k :: byte) = k mod 256"
  by (simp add: uint_word_of_int take_bit_eq_mod)

lemma u32_be_expand:
  "u32_be ([a, b, c, d] @ rest) = ((uint a * 256 + uint b) * 256 + uint c) * 256 + uint d"
  by (simp add: u32_be_def)

lemma top_byte:
  fixes n :: int
  assumes n: "0 \<le> n" "n < 4294967296"
  shows "n div 16777216 mod 256 = n div 16777216"
proof -
  have "n div 16777216 \<le> 4294967295 div 16777216"
    using n(2) by (intro zdiv_mono1) simp_all
  then have "n div 16777216 < 256" by simp
  moreover have "0 \<le> n div 16777216"
    using n(1) by (simp add: pos_imp_zdiv_nonneg_iff)
  ultimately show ?thesis by (rule_tac mod_pos_pos_trivial)
qed

lemma base256_digits:
  fixes n :: int
  assumes "n = 256 * q1 + r0" "q1 = 256 * q2 + r1" "q2 = 256 * q3 + r2"
  shows "((q3 * 256 + r2) * 256 + r1) * 256 + r0 = n"
  using assms by simp

lemma u32_be_be32:
  assumes n: "0 \<le> n" "n < 4294967296"
  shows "u32_be (be32 n @ rest) = n"
proof -
  have d2: "n div 65536 = n div 256 div 256" and d3: "n div 16777216 = n div 65536 div 256"
    by (simp_all add: zdiv_zmult2_eq)
  have e0: "n = 256 * (n div 256) + n mod 256" by simp
  have e1: "n div 256 = 256 * (n div 65536) + n div 256 mod 256" unfolding d2 by simp
  have e2: "n div 65536 = 256 * (n div 16777216) + n div 65536 mod 256" unfolding d3 by simp
  have "((n div 16777216 * 256 + n div 65536 mod 256) * 256 + n div 256 mod 256) * 256
        + n mod 256 = n"
    using e0 e1 e2 by (rule base256_digits)
  then show ?thesis
    unfolding be32_def u32_be_expand uint_byte top_byte [OF n] .
qed

lemma length_be32 [simp]: "length (be32 n) = 4"
  by (simp add: be32_def)

lemma chunks_layout:
  assumes "length ty = 4" "int (length payload) < 4294967296"
  shows "chunks (chunk_layout ty payload @ rest) = (ty, payload) # chunks rest"
proof -
  let ?bs = "chunk_layout ty payload @ rest"
  have n: "u32_be ?bs = int (length payload)"
    using assms(2) by (simp add: chunk_layout_def u32_be_be32)
  have len: "\<not> length ?bs < 12"
    using assms(1) by (simp add: chunk_layout_def)
  have ty: "take 4 (drop 4 ?bs) = ty"
    using assms(1) by (simp add: chunk_layout_def)
  have pl: "take (length payload) (drop 8 ?bs) = payload"
    using assms(1) by (simp add: chunk_layout_def)
  have rest: "drop (12 + length payload) ?bs = rest"
    using assms(1) by (simp add: chunk_layout_def)
  show ?thesis
    by (subst chunks.simps) (simp only: len n ty pl rest Let_def nat_int if_False)
qed

lemma foldl_append_concat: "foldl (\<lambda>acc x. acc @ g x) init xs = init @ concat (map g xs)"
  by (induction xs arbitrary: init) simp_all

lemma upto_nat: "[0..int n - 1] = map int [0..<n]"
proof (induction n)
  case 0 show ?case by simp
next
  case (Suc n)
  have "[0..int (Suc n) - 1] = [0..int n - 1] @ [int n]"
    using upto_rec2 [of 0 "int n"] by simp
  with Suc show ?case by simp
qed

lemma range_as_nat: "[0..n - 1] = map int [0..<nat n]"
proof (cases "0 \<le> n")
  case True
  then show ?thesis using upto_nat [of "nat n"] by simp
next
  case False
  then show ?thesis by simp
qed

lemma concat_blocks: "concat (map (\<lambda>i. take k (drop (i * k) xs)) [0..<n]) = take (n * k) xs"
proof (induction n)
  case 0 show ?case by simp
next
  case (Suc n)
  have "take (n * k + k) xs = take (n * k) xs @ take k (drop (n * k) xs)"
    by (rule take_add)
  with Suc show ?case by (simp add: add.commute)
qed

lemma slice4:
  assumes "0 \<le> i"
  shows "slice xs i (i + 4) = take 4 (drop (nat i) xs)"
proof -
  obtain k where k: "i = int k"
    using assms by (metis nat_0_le)
  have "nat (i + 4) = k + 4" using k by simp
  then show ?thesis
    using k by (auto simp: slice_def slice_bound_def Let_def min_def)
qed

lemma raw_row_eq:
  assumes "0 \<le> y" "0 \<le> width"
  shows "raw_row width pixels raw y =
         raw @ 0 # take (4 * nat width) (drop (nat y * (4 * nat width)) pixels)"
proof -
  let ?w = "nat width" and ?y = "nat y"
  have idx: "slice pixels ((y * width + int x) * 4) ((y * width + int x) * 4 + 4)
             = take 4 (drop (x * 4) (drop (?y * (4 * ?w)) pixels))" for x
  proof -
    have "nat ((y * width + int x) * 4) = x * 4 + ?y * (4 * ?w)"
      using assms by (simp add: nat_add_distrib nat_mult_distrib algebra_simps)
    then show ?thesis using assms by (simp add: slice4)
  qed
  have "raw_row width pixels raw y =
        (raw @ [0]) @ concat (map (\<lambda>x. take 4 (drop (x * 4) (drop (?y * (4 * ?w)) pixels))) [0..<?w])"
    unfolding raw_row_def Let_def foldl_append_concat range_as_nat map_map comp_def idx ..
  then have "raw_row width pixels raw y =
        (raw @ [0]) @ take (?w * 4) (drop (?y * (4 * ?w)) pixels)"
    unfolding concat_blocks .
  then show ?thesis
    by (simp add: mult.commute)
qed

lemma raw_data_scanlines:
  assumes "0 \<le> width"
  shows "raw_data width height pixels = scanlines (nat width) (nat height) pixels"
proof -
  have "foldl (raw_row width pixels) init (map int ys) =
        init @ concat (map (\<lambda>y. 0 # take (4 * nat width) (drop (y * (4 * nat width)) pixels)) ys)"
    for init ys
    using assms by (induction ys arbitrary: init) (simp_all add: raw_row_eq)
  then show ?thesis
    by (simp add: raw_data_def scanlines_def range_as_nat)
qed

lemma unfilter_rows:
  "\<forall>r \<in> set rows. length r = 4 * w \<Longrightarrow> unfilter w (concat (map (\<lambda>r. f # r) rows)) = concat rows"
  by (induction rows) simp_all

lemma unfilter_scanlines:
  assumes "length pixels = 4 * w * h"
  shows "unfilter w (scanlines w h pixels) = pixels"
proof -
  let ?rows = "map (\<lambda>y. take (4 * w) (drop (y * (4 * w)) pixels)) [0..<h]"
  have "y < h \<Longrightarrow> 4 * w \<le> length pixels - y * (4 * w)" for y
  proof -
    assume "y < h"
    then have "Suc y * (4 * w) \<le> h * (4 * w)" by (intro mult_le_mono1) simp
    then show ?thesis using assms by (simp add: algebra_simps)
  qed
  then have len: "\<forall>r \<in> set ?rows. length r = 4 * w" by auto
  have "scanlines w h pixels = concat (map (\<lambda>r. 0 # r) ?rows)"
    by (simp add: scanlines_def comp_def)
  then have "unfilter w (scanlines w h pixels) = concat ?rows"
    using unfilter_rows [OF len] by simp
  also have "\<dots> = take (h * (4 * w)) pixels"
    by (rule concat_blocks)
  finally show ?thesis using assms by (simp add: mult.commute)
qed


lemma chunk_cases:
  "chunk ty data =
     (if int (length data) < 4294967296 then Inr (chunk_layout ty data) else Inl StructError)"
  by (simp add: chunk_def chunk_layout_def Let_def pack_I_crc) (simp add: pack_I_def)

lemma create_png_Inr:
  assumes "0 \<le> width" "width < 4294967296" "0 \<le> height" "height < 4294967296"
    and "int (length (zlib_compress (raw_data width height pixels))) < 4294967296"
  shows "create_png zlib_compress width height pixels =
         Inr (png_header
              @ chunk_layout IHDR (be32 width @ be32 height @ [8, 6, 0, 0, 0])
              @ chunk_layout IDAT (zlib_compress (raw_data width height pixels))
              @ chunk_layout IEND [])"
  using assms by (simp add: create_png_def Let_def pack_I_def chunk_eq_layout)

subsection \<open>Layout of the file\<close>

text \<open>
  Claim C1, as amended. \<open>create_png\<close> returns a byte string exactly when \<open>width\<close> and
  \<open>height\<close> fit in an unsigned 32-bit field and the compressed data is shorter than \<open>2^32\<close>
  bytes. The byte string is then the 8-byte signature, an \<open>IHDR\<close> chunk whose payload is the
  width and the height, four bytes each, most significant first, and the bytes 8, 6, 0, 0, 0,
  then one \<open>IDAT\<close> chunk holding the compressed scanlines, then an \<open>IEND\<close> chunk with empty
  payload; each chunk is laid out as \<open>chunk_layout\<close> says: length, type, payload, CRC-32 of
  type and payload. In every other case \<^verbatim>\<open>struct.pack\<close> raises \<^verbatim>\<open>struct.error\<close> and nothing
  is returned.
\<close>

theorem create_png_layout:
  "create_png zlib_compress width height pixels =
     (if 0 \<le> width \<and> width < 4294967296 \<and> 0 \<le> height \<and> height < 4294967296
         \<and> int (length (zlib_compress (raw_data width height pixels))) < 4294967296
      then Inr (png_header
                @ chunk_layout IHDR (be32 width @ be32 height @ [8, 6, 0, 0, 0])
                @ chunk_layout IDAT (zlib_compress (raw_data width height pixels))
                @ chunk_layout IEND [])
      else Inl StructError)"
  by (simp add: create_png_def Let_def pack_I_def chunk_cases)

theorem create_png_layout_witness:
  "create_png (\<lambda>d. d) 1 1 [1, 2, 3, 4] =
     Inr (png_header
          @ chunk_layout IHDR (be32 1 @ be32 1 @ [8, 6, 0, 0, 0])
          @ chunk_layout IDAT [0, 1, 2, 3, 4]
          @ chunk_layout IEND [])
   \<and> create_png (\<lambda>d. d) (- 1) 1 [] = Inl StructError"
proof -
  have r: "raw_data 1 1 [1, 2, 3, 4] = [0, 1, 2, 3, 4]"
    by (simp add: raw_data_def raw_row_def slice_def slice_bound_def Let_def upto.simps)
  show ?thesis
    using create_png_layout [of "\<lambda>d. d" 1 1 "[1, 2, 3, 4]"]
      create_png_layout [of "\<lambda>d. d" "- 1" 1 "[]"]
    by (simp add: r)
qed

text \<open>
  Claim C1 as stated, for every width: with \<open>width = 2^32\<close>, \<open>height = 0\<close> and the empty
  buffer (whose length is \<open>width * height * 4\<close>), \<^verbatim>\<open>struct.pack('>IIBBBBB', ...)\<close> raises and
  no byte string is returned.
\<close>

theorem create_png_width_counterexample:
  "create_png (\<lambda>d. d) 4294967296 0 [] = Inl StructError
   \<and> length ([] :: byte list) = nat (4294967296 * 0 * 4)"
  by (simp add: create_png_def pack_I_def)

subsection \<open>The scanlines are lossless\<close>

lemma chunks_Nil: "chunks [] = []"
  by (subst chunks.simps) simp

text \<open>
  Claim C2, as amended. When \<open>width\<close> and \<open>height\<close> fit in an unsigned 32-bit field, the
  buffer has \<open>width * height * 4\<close> bytes and the compressed scanlines are shorter than \<open>2^32\<close>
  bytes, \<open>create_png\<close> returns a file, and the payload of the \<open>IDAT\<close> chunk found in that file
  decompresses to the scanlines: for each row from top to bottom one filter byte 0 and then
  the row's \<open>4 * width\<close> bytes; removing the filter bytes gives back the buffer. The
  decompressor is any function that inverts the compressor.
\<close>

theorem idat_roundtrip:
  assumes "0 \<le> width" "width < 4294967296" "0 \<le> height" "height < 4294967296"
    and "int (length (zlib_compress (raw_data width height pixels))) < 4294967296"
    and "length pixels = nat (width * height * 4)"
    and "\<forall>d. zlib_decompress (zlib_compress d) = d"
  shows "\<exists>png payload.
           create_png zlib_compress width height pixels = Inr png
           \<and> idat_payload png = Some payload
           \<and> zlib_decompress payload = scanlines (nat width) (nat height) pixels
           \<and> unfilter (nat width) (zlib_decompress payload) = pixels"
proof -
  let ?raw = "raw_data width height pixels"
  let ?png = "png_header
              @ chunk_layout IHDR (be32 width @ be32 height @ [8, 6, 0, 0, 0])
              @ chunk_layout IDAT (zlib_compress ?raw)
              @ chunk_layout IEND []"
  have png: "create_png zlib_compress width height pixels = Inr ?png"
    using assms(1-5) by (rule create_png_Inr)
  have "chunks (drop 8 ?png) =
        [(IHDR, be32 width @ be32 height @ [8, 6, 0, 0, 0]), (IDAT, zlib_compress ?raw), (IEND, [])]"
    using assms(5) chunks_layout [of IEND "[]" "[]"]
    by (simp add: png_header_def chunks_layout IHDR_def IDAT_def IEND_def chunks_Nil)
  then have payload: "idat_payload ?png = Some (zlib_compress ?raw)"
    by (simp add: idat_payload_def IHDR_def IDAT_def)
  have raw: "zlib_decompress (zlib_compress ?raw) = scanlines (nat width) (nat height) pixels"
    using assms(1,7) by (simp add: raw_data_scanlines)
  have "length pixels = 4 * nat width * nat height"
    using assms(1,3,6) by (simp add: nat_mult_distrib mult.commute)
  then have "unfilter (nat width) (scanlines (nat width) (nat height) pixels) = pixels"
    by (rule unfilter_scanlines)
  with png payload raw show ?thesis by simp
qed

theorem idat_roundtrip_witness:
  "\<exists>png payload.
     create_png (\<lambda>d. d) 1 2 [1, 2, 3, 4, 5, 6, 7, 8] = Inr png
     \<and> idat_payload png = Some payload
     \<and> payload = [0, 1, 2, 3, 4, 0, 5, 6, 7, 8]
     \<and> unfilter 1 payload = [1, 2, 3, 4, 5, 6, 7, 8]"
proof -
  have r: "raw_data 1 2 [1, 2, 3, 4, 5, 6, 7, 8] = [0, 1, 2, 3, 4, 0, 5, 6, 7, 8 :: byte]"
    by (simp add: raw_data_def raw_row_def slice_def slice_bound_def Let_def upto.simps)
  have s: "scanlines (Suc 0) 2 [1, 2, 3, 4, 5, 6, 7, 8] = [0, 1, 2, 3, 4, 0, 5, 6, 7, 8 :: byte]"
    by (simp add: scanlines_def upt_rec)
  show ?thesis
    using idat_roundtrip [of 1 2 "\<lambda>d. d" "[1, 2, 3, 4, 5, 6, 7, 8]" "\<lambda>d. d"]
    by (simp add: r s)
qed

text \<open>
  Claim C2 as stated, for every buffer of \<open>width * height * 4\<close> bytes: with \<open>width = 0\<close>,
  \<open>height = 2^32\<close> and the empty buffer, \<open>create_png\<close> raises, so there is no \<open>IDAT\<close> payload
  to decompress.
\<close>

theorem idat_roundtrip_counterexample:
  "length ([] :: byte list) = nat (0 * 4294967296 * 4)
   \<and> create_png (\<lambda>d. d) 0 4294967296 [] = Inl StructError"
  by (simp add: create_png_def pack_I_def chunk_eq_layout)

section \<open>Properties of the float model\<close>

subsection \<open>Powers of two\<close>

lemma pow2_pos [simp]: "0 < pow2 e"
  by (simp add: pow2_def)

lemma pow2_add: "pow2 (a + b) = pow2 a * pow2 b"
  by (simp add: pow2_def power_int_add)

lemma pow2_diff: "pow2 (a - b) = pow2 a / pow2 b"
  by (simp add: pow2_def power_int_diff)

lemma pow2_nat: "0 \<le> e \<Longrightarrow> pow2 e = of_int (2 ^ nat e)"
  by (simp add: pow2_def power_int_def)

lemma pow2_strict_mono: "a < b \<Longrightarrow> pow2 a < pow2 b"
  by (simp add: pow2_def power_int_strict_increasing)

lemma pow2_less_iff [simp]: "pow2 a < pow2 b \<longleftrightarrow> a < b"
proof
  assume "pow2 a < pow2 b"
  show "a < b"
  proof (rule ccontr)
    assume "\<not> a < b"
    then have "b = a \<or> b < a" by auto
    then have "pow2 b \<le> pow2 a" using pow2_strict_mono [of b a] by auto
    with \<open>pow2 a < pow2 b\<close> show False by simp
  qed
qed (rule pow2_strict_mono)

lemma pow2_le_iff [simp]: "pow2 a \<le> pow2 b \<longleftrightarrow> a \<le> b"
  using pow2_less_iff [of b a] by (simp only: not_less [symmetric])

lemma pow2_0 [simp]: "pow2 0 = 1"
  by (simp add: pow2_def)

subsection \<open>Rounding to the nearest integer\<close>

lemma round_half_even_of_int [simp]: "round_half_even (of_int k) = k"
  by (simp add: round_half_even_def)

lemma round_half_even_le: "x \<le> of_int k \<Longrightarrow> round_half_even x \<le> k"
proof -
  assume x: "x \<le> of_int k"
  show ?thesis
  proof (cases "x = of_int k")
    case True then show ?thesis by simp
  next
    case False
    with x have "x < of_int k" by simp
    then have "\<lfloor>x\<rfloor> < k" by (simp add: floor_less_iff)
    then have "\<lfloor>x\<rfloor> + 1 \<le> k" by simp
    then show ?thesis by (simp add: round_half_even_def Let_def)
  qed
qed

lemma round_half_even_ge: "of_int k \<le> x \<Longrightarrow> k \<le> round_half_even x"
proof -
  assume "of_int k \<le> x"
  then have "k \<le> \<lfloor>x\<rfloor>" by (simp add: le_floor_iff)
  then show ?thesis by (simp add: round_half_even_def Let_def)
qed

lemma round_half_even_mono: "x \<le> y \<Longrightarrow> round_half_even x \<le> round_half_even y"
proof -
  assume xy: "x \<le> y"
  then have f: "\<lfloor>x\<rfloor> \<le> \<lfloor>y\<rfloor>" by (rule floor_mono)
  show ?thesis
  proof (cases "\<lfloor>x\<rfloor> = \<lfloor>y\<rfloor>")
    case True
    then have "x - of_int \<lfloor>x\<rfloor> \<le> y - of_int \<lfloor>y\<rfloor>" using xy by simp
    then show ?thesis using True by (auto simp: round_half_even_def Let_def)
  next
    case False
    with f have "\<lfloor>x\<rfloor> + 1 \<le> \<lfloor>y\<rfloor>" by simp
    moreover have "round_half_even x \<le> \<lfloor>x\<rfloor> + 1" by (simp add: round_half_even_def Let_def)
    moreover have "\<lfloor>y\<rfloor> \<le> round_half_even y" by (simp add: round_half_even_def Let_def)
    ultimately show ?thesis by linarith
  qed
qed

lemma round_half_even_minus: "round_half_even (- x) = - round_half_even x"
proof (cases "x = of_int \<lfloor>x\<rfloor>")
  case True
  then obtain k where "x = of_int k" ..
  then show ?thesis by (simp flip: of_int_minus)
next
  case False
  then have c: "\<lceil>x\<rceil> = \<lfloor>x\<rfloor> + 1"
    by (metis ceiling_altdef)
  have fm: "\<lfloor>- x\<rfloor> = - \<lfloor>x\<rfloor> - 1"
    using c by (simp add: floor_minus)
  have d: "0 < x - of_int \<lfloor>x\<rfloor>" "x - of_int \<lfloor>x\<rfloor> < 1"
    using False by (simp_all add: less_le) linarith+
  show ?thesis
    using d by (auto simp: round_half_even_def Let_def fm algebra_simps)
qed

subsection \<open>The binary exponent\<close>

lemma bitlen_pow2_bounds:
  assumes "0 < p"
  shows "pow2 (bitlen p - 1) \<le> of_int p" and "of_int p < pow2 (bitlen p)"
proof -
  have b: "1 \<le> bitlen p"
    using assms bitlen_eq_zero_iff [of p] bitlen_nonneg [of p] by (cases "bitlen p = 0") auto
  have "2 ^ nat (bitlen p - 1) \<le> p" and "p < 2 ^ nat (bitlen p)"
    using bitlen_bounds [OF assms] by simp_all
  then have "(of_int (2 ^ nat (bitlen p - 1)) :: rat) \<le> of_int p"
    and "(of_int p :: rat) < of_int (2 ^ nat (bitlen p))"
    by (simp_all only: of_int_le_iff of_int_less_iff)
  then show "pow2 (bitlen p - 1) \<le> of_int p" and "of_int p < pow2 (bitlen p)"
    using b by (simp_all add: pow2_nat)
qed

lemma ilog2_bounds:
  assumes "0 < x"
  shows "pow2 (ilog2 x) \<le> x" and "x < pow2 (ilog2 x + 1)"
proof -
  obtain p q where pq: "quotient_of x = (p, q)" by (cases "quotient_of x")
  have q: "0 < q" using pq by (rule quotient_of_denom_pos)
  have x: "x = of_int p / of_int q" using pq by (rule quotient_of_div)
  have p: "0 < p"
    using assms q unfolding x by (simp add: zero_less_divide_iff)
  let ?e = "bitlen p - bitlen q"
  have xq: "x * of_int q = of_int p" using q unfolding x by simp
  have lo: "pow2 (?e - 1) * of_int q \<le> x * of_int q"
  proof -
    have "pow2 (?e - 1) * of_int q \<le> pow2 (?e - 1) * pow2 (bitlen q)"
      using bitlen_pow2_bounds(2) [OF q] by (simp add: less_imp_le)
    also have "\<dots> = pow2 (bitlen p - 1)"
      by (simp flip: pow2_add)
    also have "\<dots> \<le> of_int p" using bitlen_pow2_bounds(1) [OF p] .
    finally show ?thesis unfolding xq .
  qed
  have hi: "x * of_int q < pow2 (?e + 1) * of_int q"
  proof -
    have "of_int p < pow2 (bitlen p)" using bitlen_pow2_bounds(2) [OF p] .
    also have "\<dots> = pow2 (?e + 1) * pow2 (bitlen q - 1)"
      by (simp flip: pow2_add)
    also have "\<dots> \<le> pow2 (?e + 1) * of_int q"
      using bitlen_pow2_bounds(1) [OF q] by simp
    finally show ?thesis unfolding xq .
  qed
  have lo': "pow2 (?e - 1) \<le> x" using lo q by simp
  have hi': "x < pow2 (?e + 1)" using hi q by simp
  have il: "ilog2 x = (if pow2 ?e \<le> x then ?e else ?e - 1)"
    by (simp add: ilog2_def pq Let_def)
  show "pow2 (ilog2 x) \<le> x" using lo' by (simp add: il)
  show "x < pow2 (ilog2 x + 1)" using hi' by (auto simp: il not_le)
qed

lemma ilog2_unique:
  assumes "pow2 e \<le> x" "x < pow2 (e + 1)"
  shows "ilog2 x = e"
proof -
  have x: "0 < x" using assms(1) pow2_pos [of e] by linarith
  have "pow2 (ilog2 x) < pow2 (e + 1)"
    using ilog2_bounds(1) [OF x] assms(2) by linarith
  moreover have "pow2 e < pow2 (ilog2 x + 1)"
    using ilog2_bounds(2) [OF x] assms(1) by linarith
  ultimately show ?thesis by simp
qed

lemma ilog2_mono:
  assumes "0 < x" "x \<le> y"
  shows "ilog2 x \<le> ilog2 y"
proof -
  have y: "0 < y" using assms by linarith
  have "pow2 (ilog2 x) < pow2 (ilog2 y + 1)"
    using ilog2_bounds(1) [OF assms(1)] ilog2_bounds(2) [OF y] assms(2) by linarith
  then show ?thesis by simp
qed

subsection \<open>Rounding to a float\<close>

lemma ulp_pos [simp]: "0 < ulp x"
  by (simp add: ulp_def)

lemma ulp_minus [simp]: "ulp (- x) = ulp x"
  by (simp add: ulp_def)

lemma float_round_0 [simp]: "float_round 0 = 0"
  by (simp add: float_round_def)

lemma float_round_minus: "float_round (- x) = - float_round x"
  by (simp add: float_round_def round_half_even_minus)

lemma float_round_nonneg: "0 \<le> x \<Longrightarrow> 0 \<le> float_round x"
proof -
  assume "0 \<le> x"
  then have "of_int 0 \<le> x / ulp x" by (simp add: less_imp_le)
  then have "0 \<le> round_half_even (x / ulp x)" by (rule round_half_even_ge)
  then show ?thesis by (simp add: float_round_def less_imp_le)
qed

lemma float_round_pos_le:
  assumes "x \<le> of_int m * ulp x"
  shows "float_round x \<le> of_int m * ulp x"
proof (cases "x = 0")
  case True
  with assms show ?thesis by simp
next
  case False
  have "x / ulp x \<le> of_int m" using assms by (simp add: pos_divide_le_eq)
  then have "round_half_even (x / ulp x) \<le> m" by (rule round_half_even_le)
  then show ?thesis using False by (simp add: float_round_def)
qed

lemma float_round_pos_ge:
  assumes "of_int m * ulp x \<le> x" "x \<noteq> 0"
  shows "of_int m * ulp x \<le> float_round x"
proof -
  have "of_int m \<le> x / ulp x" using assms by (simp add: pos_le_divide_eq)
  then have "m \<le> round_half_even (x / ulp x)" by (rule round_half_even_ge)
  then show ?thesis using assms(2) by (simp add: float_round_def)
qed

text \<open>A positive number lies between two powers of two, and so does its rounding.\<close>

lemma pow2_split: "pow2 a = pow2 b * pow2 (a - b)"
  by (simp flip: pow2_add)

lemma ulp_exponent:
  assumes "0 < x"
  shows "ulp x = pow2 (max (ilog2 x) (- 1022) - 52)"
  using assms by (simp add: ulp_def)

lemma float_round_upper:
  assumes "0 < x"
  shows "float_round x \<le> pow2 (max (ilog2 x) (- 1022) + 1)"
proof -
  let ?e = "max (ilog2 x) (- 1022)"
  have "x < pow2 (ilog2 x + 1)" using assms by (rule ilog2_bounds)
  also have "\<dots> \<le> pow2 (?e + 1)" by simp
  also have "\<dots> = of_int (2 ^ 53) * ulp x"
    using pow2_split [of "?e + 1" 53] by (simp add: ulp_exponent [OF assms] pow2_nat)
  finally have "x \<le> of_int (2 ^ 53) * ulp x" by simp
  then have "float_round x \<le> of_int (2 ^ 53) * ulp x" by (rule float_round_pos_le)
  also have "\<dots> = pow2 (?e + 1)"
    using pow2_split [of "?e + 1" 53] by (simp add: ulp_exponent [OF assms] pow2_nat)
  finally show ?thesis .
qed

lemma float_round_lower:
  assumes "0 < x" "- 1022 \<le> ilog2 x"
  shows "pow2 (ilog2 x) \<le> float_round x"
proof -
  have u: "ulp x = pow2 (ilog2 x - 52)"
    using assms by (simp add: ulp_exponent max_def)
  have eq: "pow2 (ilog2 x) = of_int (2 ^ 52) * ulp x"
    using pow2_split [of "ilog2 x" 52] by (simp add: u pow2_nat)
  have "of_int (2 ^ 52) * ulp x \<le> x"
    using ilog2_bounds(1) [OF assms(1)] by (simp only: eq)
  then have "of_int (2 ^ 52) * ulp x \<le> float_round x"
    using assms(1) by (intro float_round_pos_ge) simp_all
  then show ?thesis by (simp only: eq)
qed

lemma float_round_mono_pos:
  assumes "0 < x" "x \<le> y"
  shows "float_round x \<le> float_round y"
proof -
  have y: "0 < y" using assms by linarith
  let ?ex = "max (ilog2 x) (- 1022)" and ?ey = "max (ilog2 y) (- 1022)"
  have le: "?ex \<le> ?ey" using ilog2_mono [OF assms] by simp
  show ?thesis
  proof (cases "?ex = ?ey")
    case True
    then have u: "ulp x = ulp y" by (simp add: ulp_exponent assms(1) y)
    have "x / ulp y \<le> y / ulp y" using assms(2) by (intro divide_right_mono) (simp_all add: less_imp_le)
    then have "round_half_even (x / ulp y) \<le> round_half_even (y / ulp y)"
      by (rule round_half_even_mono)
    then have "(of_int (round_half_even (x / ulp y)) :: rat) * ulp y
               \<le> of_int (round_half_even (y / ulp y)) * ulp y"
      by (simp only: mult_le_cancel_right_pos [OF ulp_pos] of_int_le_iff)
    then show ?thesis using assms(1) y by (simp add: float_round_def u)
  next
    case False
    from le False have lt: "?ex < ?ey" by linarith
    have "- 1022 \<le> ?ex" by (rule max.cobounded2)
    with lt have "- 1022 < ?ey" by linarith
    then have ey: "?ey = ilog2 y" "- 1022 \<le> ilog2 y"
      unfolding max_def by (simp_all split: if_splits)
    have "float_round x \<le> pow2 (?ex + 1)" using assms(1) by (rule float_round_upper)
    also have "\<dots> \<le> pow2 (ilog2 y)"
    proof -
      have "?ex + 1 \<le> ilog2 y" using lt ey(1) by linarith
      then show ?thesis by (simp only: pow2_le_iff)
    qed
    also have "\<dots> \<le> float_round y" using y ey(2) by (rule float_round_lower)
    finally show ?thesis .
  qed
qed

lemma float_round_mono:
  assumes "x \<le> y"
  shows "float_round x \<le> float_round y"
proof -
  consider "0 < x" | "x \<le> 0" "0 \<le> y" | "y < 0" by linarith
  then show ?thesis
  proof cases
    case 1
    then show ?thesis using assms by (rule float_round_mono_pos)
  next
    case 2
    have "0 \<le> float_round (- x)" using 2(1) by (intro float_round_nonneg) simp
    then have "float_round x \<le> 0" by (simp add: float_round_minus)
    also have "0 \<le> float_round y" using 2(2) by (rule float_round_nonneg)
    finally show ?thesis .
  next
    case 3
    have "float_round (- y) \<le> float_round (- x)"
      using 3 assms by (intro float_round_mono_pos) simp_all
    then show ?thesis by (simp add: float_round_minus)
  qed
qed

subsection \<open>Numbers that are floats\<close>

lemma pow2_neq_0 [simp]: "pow2 k \<noteq> 0"
  by (simp add: pow2_def)

lemma ulp_neq_0 [simp]: "ulp x \<noteq> 0"
  by (simp add: ulp_def)

lemma float_grid_pos:
  assumes "0 < m" "m < 2 ^ 53" "- 1074 \<le> k"
  shows "float_round (of_int m * pow2 k) = of_int m * pow2 k"
proof -
  let ?y = "of_int m * pow2 k :: rat"
  have y: "0 < ?y" using assms(1) by simp
  have "?y < of_int (2 ^ 53) * pow2 k" using assms(2) by (simp only: mult_less_cancel_right_pos [OF pow2_pos] of_int_less_iff)
  also have "\<dots> = pow2 (53 + k)" by (simp add: pow2_add pow2_nat)
  finally have "pow2 (ilog2 ?y) < pow2 (53 + k)"
    using ilog2_bounds(1) [OF y] by linarith
  then have "ilog2 ?y < 53 + k" by (simp only: pow2_less_iff)
  then have u: "max (ilog2 ?y) (- 1022) - 52 \<le> k" using assms(3) by simp
  let ?u = "max (ilog2 ?y) (- 1022) - 52"
  have ulp: "ulp ?y = pow2 ?u" using y by (simp add: ulp_exponent)
  have k: "pow2 k = of_int (2 ^ nat (k - ?u)) * ulp ?y"
  proof -
    have "pow2 k = pow2 ?u * pow2 (k - ?u)" by (rule pow2_split)
    moreover have "pow2 (k - ?u) = of_int (2 ^ nat (k - ?u))" using u by (intro pow2_nat) simp
    ultimately show ?thesis unfolding ulp by (simp only: mult.commute)
  qed
  have "?y / ulp ?y = of_int (m * 2 ^ nat (k - ?u))"
    by (subst k) simp
  then have "round_half_even (?y / ulp ?y) = m * 2 ^ nat (k - ?u)"
    by (simp only: round_half_even_of_int)
  then have "float_round ?y = of_int (m * 2 ^ nat (k - ?u)) * ulp ?y"
    using y by (simp add: float_round_def)
  also have "\<dots> = ?y" by (subst (2) k) simp
  finally show ?thesis .
qed

lemma float_grid:
  assumes "\<bar>m\<bar> \<le> 2 ^ 53" "- 1074 \<le> k"
  shows "float_round (of_int m * pow2 k) = of_int m * pow2 k"
proof -
  have top: "float_round (of_int (2 ^ 53) * pow2 j) = of_int (2 ^ 53) * pow2 j" if "- 1074 \<le> j" for j
  proof -
    have "pow2 (j + 1) = pow2 j * 2"
      by (simp add: pow2_add) (simp add: pow2_def)
    then have eq: "(of_int (2 ^ 53) :: rat) * pow2 j = of_int (2 ^ 52) * pow2 (j + 1)"
      by simp
    show ?thesis
      unfolding eq using that by (intro float_grid_pos) simp_all
  qed
  have pos: "float_round (of_int n * pow2 k) = of_int n * pow2 k" if "0 < n" "n \<le> 2 ^ 53" for n
  proof (cases "n = 2 ^ 53")
    case True
    then show ?thesis using top [OF assms(2)] by simp
  next
    case False
    with that have "n < 2 ^ 53" by simp
    with that(1) show ?thesis using assms(2) by (intro float_grid_pos)
  qed
  consider "m = 0" | "0 < m" | "m < 0" by linarith
  then show ?thesis
  proof cases
    case 1 then show ?thesis by simp
  next
    case 2 then show ?thesis using assms(1) by (intro pos) simp_all
  next
    case 3
    then have "float_round (of_int (- m) * pow2 k) = of_int (- m) * pow2 k"
      using assms(1) by (intro pos) simp_all
    then have "float_round (- (of_int m * pow2 k)) = - (of_int m * pow2 k)" by simp
    then show ?thesis by (simp only: float_round_minus neg_equal_iff_equal)
  qed
qed

lemma float_round_of_int:
  assumes "\<bar>n\<bar> \<le> 2 ^ 53"
  shows "float_round (of_int n) = of_int n"
  using float_grid [of n 0] assms by simp

lemma float_round_on_grid:
  "\<exists>m. float_round x = of_int m * ulp x \<and> \<bar>m\<bar> \<le> 2 ^ 53"
proof -
  have pos: "\<exists>m. float_round y = of_int m * ulp y \<and> \<bar>m\<bar> \<le> 2 ^ 53" if y: "0 < y" for y
  proof -
    let ?m = "round_half_even (y / ulp y)"
    have "of_int 0 \<le> y / ulp y" using y by (simp add: less_imp_le)
    then have m0: "0 \<le> ?m" by (rule round_half_even_ge)
    let ?e = "max (ilog2 y) (- 1022)"
    have "y < pow2 (ilog2 y + 1)" using y by (rule ilog2_bounds)
    also have "\<dots> \<le> pow2 (?e + 1)" by simp
    also have "\<dots> = of_int (2 ^ 53) * ulp y"
      using pow2_split [of "?e + 1" 53] by (simp add: ulp_exponent [OF y] pow2_nat)
    finally have "y / ulp y \<le> of_int (2 ^ 53)" by (simp add: pos_divide_le_eq)
    then have "?m \<le> 2 ^ 53" by (rule round_half_even_le)
    with m0 have "\<bar>?m\<bar> \<le> 2 ^ 53" by simp
    moreover have "float_round y = of_int ?m * ulp y" using y by (simp add: float_round_def)
    ultimately show ?thesis by blast
  qed
  consider "x = 0" | "0 < x" | "x < 0" by linarith
  then show ?thesis
  proof cases
    case 1
    then have "float_round x = of_int 0 * ulp x \<and> \<bar>0 :: int\<bar> \<le> 2 ^ 53" by simp
    then show ?thesis by blast
  next
    case 2 then show ?thesis by (rule pos)
  next
    case 3
    then obtain m where m: "float_round (- x) = of_int m * ulp (- x)" "\<bar>m\<bar> \<le> 2 ^ 53"
      using pos [of "- x"] by auto
    then have "float_round x = of_int (- m) * ulp x \<and> \<bar>- m\<bar> \<le> 2 ^ 53"
      by (simp add: float_round_minus)
    then show ?thesis by blast
  qed
qed

lemma float_round_idem [simp]: "float_round (float_round x) = float_round x"
proof -
  obtain m where m: "float_round x = of_int m * ulp x" "\<bar>m\<bar> \<le> 2 ^ 53"
    using float_round_on_grid by blast
  have "ulp x = pow2 (max (ilog2 \<bar>x\<bar>) (- 1022) - 52)" by (simp add: ulp_def)
  moreover have "- 1074 \<le> max (ilog2 \<bar>x\<bar>) (- 1022) - 52" by simp
  ultimately show ?thesis using float_grid [OF m(2)] m(1) by simp
qed


declare isqrt.simps [simp del]

lemma pow2_1024_big: "(of_int (2 ^ 53) :: rat) < pow2 1024"
proof -
  have "(of_int (2 ^ 53) :: rat) = pow2 53" by (simp add: pow2_nat)
  then show ?thesis by (simp only: pow2_less_iff)
qed

lemma is_float_of_int:
  assumes "\<bar>n\<bar> \<le> 2 ^ 53"
  shows "is_float (of_int n)"
proof -
  have "\<bar>of_int n :: rat\<bar> \<le> of_int (2 ^ 53)"
    using assms by (simp only: of_int_abs [symmetric] of_int_le_iff)
  then show ?thesis
    using pow2_1024_big float_round_of_int [OF assms] by (simp add: is_float_def)
qed

lemma is_float_numeral [simp]: "is_float 0" "is_float 1" "is_float 2" "is_float 6" "is_float 255"
  using is_float_of_int [of 0] is_float_of_int [of 1] is_float_of_int [of 2]
    is_float_of_int [of 6] is_float_of_int [of 255]
  by simp_all

lemma is_float_minus [simp]: "is_float (- x) \<longleftrightarrow> is_float x"
  by (auto simp: is_float_def float_round_minus)

lemma float_round_le:
  assumes "x \<le> b" "is_float b"
  shows "float_round x \<le> b"
  using float_round_mono [OF assms(1)] assms(2) by (simp add: is_float_def)

lemma float_round_ge:
  assumes "b \<le> x" "is_float b"
  shows "b \<le> float_round x"
  using float_round_mono [OF assms(1)] assms(2) by (simp add: is_float_def)

lemma float_round_abs_le:
  assumes "\<bar>x\<bar> \<le> b" "is_float b"
  shows "\<bar>float_round x\<bar> \<le> b"
proof -
  have "float_round x \<le> b" using assms by (intro float_round_le) simp_all
  moreover have "- b \<le> float_round x" using assms by (intro float_round_ge) simp_all
  ultimately show ?thesis by simp
qed

lemma fl_float_round:
  assumes "\<bar>x\<bar> \<le> b" "is_float b"
  shows "fl x = Fin (float_round x)"
proof -
  have "\<bar>float_round x\<bar> \<le> b" using assms by (rule float_round_abs_le)
  moreover have "b < pow2 1024" using assms(2) unfolding is_float_def by linarith
  ultimately have "\<not> pow2 1024 \<le> float_round x" "\<not> float_round x \<le> - pow2 1024"
    by linarith+
  then show ?thesis by (simp add: fl_def Let_def)
qed

lemma fl_exact:
  assumes "is_float x"
  shows "fl x = Fin x"
proof -
  have "\<bar>x\<bar> \<le> \<bar>x\<bar>" by simp
  moreover have "is_float \<bar>x\<bar>" using assms by (cases "0 \<le> x") (simp_all add: abs_if)
  ultimately have "fl x = Fin (float_round x)" by (rule fl_float_round)
  then show ?thesis using assms by (simp add: is_float_def)
qed

lemma fl_0 [simp]: "fl 0 = Fin 0"
  by (rule fl_exact) simp

lemma to_float_small:
  assumes "\<bar>n\<bar> \<le> 2 ^ 53"
  shows "to_float (PyInt n) = Inr (Fin (of_int n))"
  using fl_exact [OF is_float_of_int [OF assms]] by simp

lemma py_int_of_int [simp]: "py_int (of_int n) = n"
  by (simp add: py_int_def)

lemma py_int_nonneg: "0 \<le> x \<Longrightarrow> 0 \<le> py_int x"
  by (simp add: py_int_def)

lemma py_int_le: "x \<le> of_int n \<Longrightarrow> 0 \<le> n \<Longrightarrow> py_int x \<le> n"
  by (auto simp: py_int_def floor_le_iff ceiling_le_iff intro: order_trans)


section \<open>Properties of the compositor\<close>

lemma fl_small:
  assumes "\<bar>x\<bar> \<le> of_int (2 ^ 53)"
  shows "fl x = Fin (float_round x)"
  using assms by (rule fl_float_round) (rule is_float_of_int, simp)

lemma uint_byte_range: "0 \<le> uint (w :: byte)" "uint (w :: byte) < 256" "uint (w :: byte) \<le> 255"
  using uint_bounded [of w] by simp_all

lemma getitem_int:
  "0 \<le> j \<Longrightarrow> nat j < length pixels \<Longrightarrow> getitem pixels j = Inr (uint (pixels ! nat j))"
  by (simp add: getitem_def py_index_def)

lemma setitem_int:
  "0 \<le> j \<Longrightarrow> nat j < length pixels \<Longrightarrow> 0 \<le> v \<Longrightarrow> v < 256
   \<Longrightarrow> setitem pixels j v = Inr (pixels[nat j := word_of_int v])"
  by (simp add: setitem_def py_index_def)

lemma alpha_fraction:
  assumes "0 \<le> a" "a \<le> 255"
  shows "0 \<le> float_round (of_int a / 255)" and "float_round (of_int a / 255) \<le> 1"
proof -
  have "(0 :: rat) \<le> of_int a / 255" using assms(1) by simp
  then show "0 \<le> float_round (of_int a / 255)" by (rule float_round_nonneg)
  have "(of_int a :: rat) / 255 \<le> 1" using assms(2) by simp
  then show "float_round (of_int a / 255) \<le> 1" by (rule float_round_le) simp
qed

lemma num_truediv_alpha:
  assumes "0 \<le> a" "a \<le> 255"
  shows "num_truediv (PyInt a) (PyFloat (Fin 255))
         = Inr (PyFloat (Fin (float_round (of_int a / 255))))"
proof -
  have "\<bar>of_int a / 255 :: rat\<bar> \<le> 1" using assms by simp
  then have "fl (of_int a / 255) = Fin (float_round (of_int a / 255))"
    by (rule fl_float_round) simp
  moreover have "to_float (PyInt a) = Inr (Fin (of_int a))"
    using assms by (intro to_float_small) simp
  ultimately show ?thesis by (simp add: float_op_def float_truediv_def)
qed

lemma num_mul_int_float:
  assumes "\<bar>c\<bar> \<le> 2 ^ 53"
  shows "num_mul (PyInt c) (PyFloat (Fin x)) = Inr (PyFloat (fl (of_int c * x)))"
  using to_float_small [OF assms] by (simp add: float_op_def)

lemma num_sub_int_float:
  assumes "\<bar>c\<bar> \<le> 2 ^ 53"
  shows "num_sub (PyInt c) (PyFloat (Fin x)) = Inr (PyFloat (fl (of_int c - x)))"
  using to_float_small [OF assms] by (simp add: float_op_def float_sub_def)

lemma num_add_float_float:
  "num_add (PyFloat (Fin x)) (PyFloat (Fin y)) = Inr (PyFloat (fl (x + y)))"
  by (simp add: float_op_def)

text \<open>A product or sum of bounded nonnegative numbers rounds without overflow.\<close>

lemma fl_bounded_nonneg:
  assumes "0 \<le> x" "x \<le> of_int n" "n \<le> 2 ^ 53"
  shows "fl x = Fin (float_round x)" and "0 \<le> float_round x" and "float_round x \<le> of_int n"
proof -
  have n: "\<bar>n\<bar> \<le> 2 ^ 53" using assms by linarith
  have "\<bar>x\<bar> \<le> of_int n" using assms by simp
  then show "fl x = Fin (float_round x)"
    using is_float_of_int [OF n] by (rule fl_float_round)
  show "0 \<le> float_round x" using assms(1) by (rule float_round_nonneg)
  show "float_round x \<le> of_int n"
    using assms(2) is_float_of_int [OF n] by (rule float_round_le)
qed

lemma blend_channel_value:
  assumes i: "0 \<le> j" "nat j < length pixels" and c: "0 \<le> c" "c \<le> 255" and a: "0 \<le> a" "a \<le> 255"
  shows "blend_channel pixels j c (PyFloat (Fin (float_round (of_int a / 255))))
         = Inr (blend_value c (uint (pixels ! nat j)) a)"
    and "0 \<le> blend_value c (uint (pixels ! nat j)) a"
    and "blend_value c (uint (pixels ! nat j)) a < 256"
proof -
  let ?fa = "float_round (of_int a / 255)"
  define p where "p = uint (pixels ! nat j)"
  have p: "0 \<le> p" "p \<le> 255"
    using uint_byte_range [of "pixels ! nat j"] by (simp_all add: p_def)
  have get: "getitem pixels j = Inr p"
    using i by (simp add: getitem_int p_def)
  note fa = alpha_fraction [OF a]
  have cf: "\<bar>c\<bar> \<le> 2 ^ 53" using c by simp
  have pf: "\<bar>p\<bar> \<le> 2 ^ 53" using p by simp
  have one: "\<bar>1 :: int\<bar> \<le> 2 ^ 53" by simp
  have "0 \<le> of_int c * ?fa" using c fa by simp
  moreover have "of_int c * ?fa \<le> of_int 255"
  proof -
    have "of_int c * ?fa \<le> of_int c * 1" using c fa by (intro mult_left_mono) simp_all
    also have "\<dots> \<le> of_int 255" using c by simp
    finally show ?thesis .
  qed
  ultimately have src: "fl (of_int c * ?fa) = Fin (float_round (of_int c * ?fa))"
    "0 \<le> float_round (of_int c * ?fa)" "float_round (of_int c * ?fa) \<le> of_int 255"
    by (rule fl_bounded_nonneg, simp)+
  have "0 \<le> 1 - ?fa" "1 - ?fa \<le> of_int 1" using fa by simp_all
  then have k: "fl (1 - ?fa) = Fin (float_round (1 - ?fa))"
    "0 \<le> float_round (1 - ?fa)" "float_round (1 - ?fa) \<le> of_int 1"
    by (rule fl_bounded_nonneg, simp)+
  let ?k = "float_round (1 - ?fa)"
  have "0 \<le> of_int p * ?k" using p k by simp
  moreover have "of_int p * ?k \<le> of_int 255"
  proof -
    have "of_int p * ?k \<le> of_int p * 1" using p k by (intro mult_left_mono) simp_all
    also have "\<dots> \<le> of_int 255" using p by simp
    finally show ?thesis .
  qed
  ultimately have dst: "fl (of_int p * ?k) = Fin (float_round (of_int p * ?k))"
    "0 \<le> float_round (of_int p * ?k)" "float_round (of_int p * ?k) \<le> of_int 255"
    by (rule fl_bounded_nonneg, simp)+
  let ?s = "float_round (of_int c * ?fa)" and ?d = "float_round (of_int p * ?k)"
  have "0 \<le> ?s + ?d" "?s + ?d \<le> of_int 510" using src dst by simp_all
  then have v: "fl (?s + ?d) = Fin (float_round (?s + ?d))" "0 \<le> float_round (?s + ?d)"
    by (rule fl_bounded_nonneg, simp)+
  have "blend_channel pixels j c (PyFloat (Fin ?fa)) = Inr (blend_value c p a)"
    using k src dst v
    by (simp add: blend_channel_def blend_value_def Let_def get
        num_mul_int_float [OF cf] num_mul_int_float [OF pf] num_sub_int_float [OF one]
        num_add_float_float del: num_mul.simps num_sub.simps num_add.simps)
  then show "blend_channel pixels j c (PyFloat (Fin ?fa))
             = Inr (blend_value c (uint (pixels ! nat j)) a)"
    by (simp only: p_def)
  have "0 \<le> py_int (float_round (?s + ?d))" using v(2) by (rule py_int_nonneg)
  then have "0 \<le> blend_value c p a" by (simp add: blend_value_def Let_def)
  then show "0 \<le> blend_value c (uint (pixels ! nat j)) a" by (simp only: p_def)
  show "blend_value c (uint (pixels ! nat j)) a < 256" by (simp add: blend_value_def Let_def)
qed

lemma set_pixel_composite:
  assumes xy: "0 \<le> x" "x < width" "0 \<le> y" "y < height"
    and len: "nat ((y * width + x) * 4) + 3 < length pixels"
    and col: "0 \<le> r" "r \<le> 255" "0 \<le> g" "g \<le> 255" "0 \<le> b" "b \<le> 255" "0 \<le> a" "a \<le> 255"
  shows "set_pixel pixels width height x y r g b a
         = Inr (composite pixels (nat ((y * width + x) * 4)) r g b a)"
proof -
  define j where "j = (y * width + x) * 4"
  define i where "i = nat j"
  have j0: "0 \<le> j" using xy by (simp add: j_def)
  have nj: "nat j = i" "nat (j + 1) = i + 1" "nat (j + 2) = i + 2" "nat (j + 3) = i + 3"
    using j0 by (simp_all add: i_def nat_add_distrib)
  have jk: "0 \<le> j + 1" "0 \<le> j + 2" "0 \<le> j + 3" using j0 by simp_all
  have l: "i < length pixels" "i + 1 < length pixels" "i + 2 < length pixels"
    "i + 3 < length pixels"
    using len by (simp_all add: i_def j_def)
  have sp: "set_pixel pixels width height x y r g b a =
      ebind (getitem pixels (j + 3)) (\<lambda>old_a.
         if old_a = 0 then
           ebind (setitem pixels j r) (\<lambda>p1.
           ebind (setitem p1 (j + 1) g) (\<lambda>p2.
           ebind (setitem p2 (j + 2) b) (\<lambda>p3.
           setitem p3 (j + 3) a)))
         else
           ebind (num_truediv (PyInt a) (PyFloat (Fin 255))) (\<lambda>fa.
           ebind (blend_channel pixels j r fa) (\<lambda>v0.
           ebind (setitem pixels j v0) (\<lambda>p1.
           ebind (blend_channel p1 (j + 1) g fa) (\<lambda>v1.
           ebind (setitem p1 (j + 1) v1) (\<lambda>p2.
           ebind (blend_channel p2 (j + 2) b fa) (\<lambda>v2.
           ebind (setitem p2 (j + 2) v2) (\<lambda>p3.
           setitem p3 (j + 3) (min 255 (old_a + a))))))))))"
  proof -
    have c: "(0 \<le> x \<and> x < width \<and> 0 \<le> y \<and> y < height) = True" using xy by simp
    show ?thesis
      unfolding set_pixel_def Let_def j_def [symmetric] c if_True ..
  qed
  define old where "old = uint (pixels ! (i + 3))"
  have old: "0 \<le> old" "old \<le> 255"
    using uint_byte_range [of "pixels ! (i + 3)"] by (simp_all add: old_def)
  have get: "getitem pixels (j + 3) = Inr old"
    using getitem_int [OF jk(3)] l by (simp add: nj old_def)
  have "set_pixel pixels width height x y r g b a = Inr (composite pixels i r g b a)"
  proof (cases "old = 0")
    case True
    define q1 where "q1 = pixels[i := word_of_int r]"
    define q2 where "q2 = q1[i + 1 := word_of_int g]"
    define q3 where "q3 = q2[i + 2 := word_of_int b]"
    have lq: "length q1 = length pixels" "length q2 = length pixels" "length q3 = length pixels"
      by (simp_all add: q1_def q2_def q3_def)
    have t0: "setitem pixels j r = Inr q1"
      using setitem_int [OF j0, of pixels r] col l by (simp add: nj q1_def)
    have t1: "setitem q1 (j + 1) g = Inr q2"
      using setitem_int [OF jk(1), of q1 g] col l lq by (simp add: nj q2_def)
    have t2: "setitem q2 (j + 2) b = Inr q3"
      using setitem_int [OF jk(2), of q2 b] col l lq by (simp add: nj q3_def)
    have t3: "setitem q3 (j + 3) a = Inr (q3[i + 3 := word_of_int a])"
      using setitem_int [OF jk(3), of q3 a] col l lq by (simp add: nj)
    have "set_pixel pixels width height x y r g b a = Inr (q3[i + 3 := word_of_int a])"
      using True by (simp add: sp get t0 t1 t2 t3)
    then show ?thesis
      using True by (simp add: composite_def old_def q3_def q2_def q1_def)
  next
    case False
    let ?fa = "float_round (of_int a / 255)"
    have fa: "num_truediv (PyInt a) (PyFloat (Fin 255)) = Inr (PyFloat (Fin ?fa))"
      using col by (intro num_truediv_alpha)
    define v0 where "v0 = blend_value r (uint (pixels ! i)) a"
    define v1 where "v1 = blend_value g (uint (pixels ! (i + 1))) a"
    define v2 where "v2 = blend_value b (uint (pixels ! (i + 2))) a"
    define p1 where "p1 = pixels[i := word_of_int v0]"
    define p2 where "p2 = p1[i + 1 := word_of_int v1]"
    define p3 where "p3 = p2[i + 2 := word_of_int v2]"
    have lp: "length p1 = length pixels" "length p2 = length pixels" "length p3 = length pixels"
      by (simp_all add: p1_def p2_def p3_def)
    have n1: "p1 ! (i + 1) = pixels ! (i + 1)" by (simp add: p1_def)
    have n2: "p2 ! (i + 2) = pixels ! (i + 2)" by (simp add: p1_def p2_def)
    have b0: "blend_channel pixels j r (PyFloat (Fin ?fa)) = Inr v0" "0 \<le> v0" "v0 < 256"
      using blend_channel_value [OF j0 _ col(1,2) col(7,8), of pixels] l
      by (simp_all add: nj v0_def)
    have b1: "blend_channel p1 (j + 1) g (PyFloat (Fin ?fa)) = Inr v1" "0 \<le> v1" "v1 < 256"
      using blend_channel_value [OF jk(1) _ col(3,4) col(7,8), of p1] l lp n1
      by (simp_all add: nj v1_def)
    have b2: "blend_channel p2 (j + 2) b (PyFloat (Fin ?fa)) = Inr v2" "0 \<le> v2" "v2 < 256"
      using blend_channel_value [OF jk(2) _ col(5,6) col(7,8), of p2] l lp n2
      by (simp_all add: nj v2_def)
    have al: "0 \<le> min 255 (old + a)" "min 255 (old + a) < 256" using old col by simp_all
    have s0: "setitem pixels j v0 = Inr p1"
      using setitem_int [OF j0, of pixels v0] l b0 by (simp add: nj p1_def)
    have s1: "setitem p1 (j + 1) v1 = Inr p2"
      using setitem_int [OF jk(1), of p1 v1] l lp b1 by (simp add: nj p2_def)
    have s2: "setitem p2 (j + 2) v2 = Inr p3"
      using setitem_int [OF jk(2), of p2 v2] l lp b2 by (simp add: nj p3_def)
    have s3: "setitem p3 (j + 3) (min 255 (old + a))
              = Inr (p3[i + 3 := word_of_int (min 255 (old + a))])"
      using setitem_int [OF jk(3), of p3 "min 255 (old + a)"] l lp al by (simp add: nj)
    have "set_pixel pixels width height x y r g b a
          = Inr (p3[i + 3 := word_of_int (min 255 (old + a))])"
      using False by (simp add: sp get fa b0 b1 b2 s0 s1 s2 s3 del: num_truediv.simps)
    then show ?thesis
      using False
      by (simp add: composite_def Let_def old_def p3_def p2_def p1_def v0_def v1_def v2_def)
  qed
  then show ?thesis by (simp only: i_def j_def)
qed

lemma pixel_index_bound:
  fixes x y width height :: int
  assumes "0 \<le> x" "x < width" "0 \<le> y" "y < height"
  shows "0 \<le> y * width + x" and "y * width + x < width * height"
proof -
  show "0 \<le> y * width + x" using assms by simp
  have "y + 1 \<le> height" using assms by simp
  then have "(y + 1) * width \<le> height * width"
    using assms by (intro mult_right_mono) simp_all
  then show "y * width + x < width * height"
    using assms by (simp add: algebra_simps)
qed

lemma pixel_index_inj:
  fixes x y x' y' width :: int
  assumes "0 \<le> x" "x < width" "0 \<le> x'" "x' < width" "y * width + x = y' * width + x'"
  shows "x = x' \<and> y = y'"
proof -
  have w: "0 < width" using assms by simp
  have "(y * width + x) mod width = x mod width" "(y' * width + x') mod width = x' mod width"
    by (rule mod_mult_self3)+
  moreover have "x mod width = x" "x' mod width = x'"
    using assms by (simp_all add: mod_pos_pos_trivial)
  ultimately have x: "x = x'" using assms(5) by (simp only:)
  then have "y * width = y' * width" using assms(5) by simp
  then have "y = y'" using w by simp
  with x show ?thesis by simp
qed

lemma pixel_in_buffer:
  assumes "0 \<le> x" "x < width" "0 \<le> y" "y < height"
    and "width * height * 4 \<le> int (length pixels)"
  shows "nat ((y * width + x) * 4) + 3 < length pixels"
proof -
  have "(y * width + x) * 4 + 3 < width * height * 4"
    using pixel_index_bound(2) [OF assms(1-4)] by simp
  moreover have "0 \<le> (y * width + x) * 4"
    using pixel_index_bound(1) [OF assms(1-4)] by simp
  ultimately show ?thesis using assms(5) by linarith
qed

lemma uint_word_byte: "0 \<le> v \<Longrightarrow> v \<le> 255 \<Longrightarrow> uint (word_of_int v :: byte) = v"
  by (simp add: uint_word_of_int take_bit_eq_mod)

lemma length_composite [simp]: "length (composite pixels i r g b a) = length pixels"
  by (simp add: composite_def Let_def)




subsection \<open>One call\<close>








subsection \<open>The alpha channel over a sequence of calls\<close>

lemma alpha_step_range:
  assumes "0 \<le> old" "old \<le> 255" "0 \<le> a" "a \<le> 255"
  shows "old \<le> alpha_step old a" and "alpha_step old a \<le> 255" and "0 \<le> alpha_step old a"
  using assms by (simp_all add: alpha_step_def)

lemma alpha_index_distinct:
  fixes m n :: int
  assumes "0 \<le> m" "0 \<le> n" "m \<noteq> n"
  shows "nat (n * 4 + 3) \<noteq> nat (m * 4)" "nat (n * 4 + 3) \<noteq> nat (m * 4) + 1"
    "nat (n * 4 + 3) \<noteq> nat (m * 4) + 2" "nat (n * 4 + 3) \<noteq> nat (m * 4) + 3"
proof -
  obtain m' n' where mn: "m = int m'" "n = int n'"
    using assms(1,2) by (metis nat_0_le)
  have ne: "m' \<noteq> n'" using assms(3) mn by simp
  have e: "nat (n * 4 + 3) = n' * 4 + 3" "nat (m * 4) = m' * 4"
    by (simp_all add: mn nat_add_distrib nat_mult_distrib)
  show "nat (n * 4 + 3) \<noteq> nat (m * 4)" unfolding e using ne by presburger
  show "nat (n * 4 + 3) \<noteq> nat (m * 4) + 1" unfolding e using ne by presburger
  show "nat (n * 4 + 3) \<noteq> nat (m * 4) + 2" unfolding e using ne by presburger
  show "nat (n * 4 + 3) \<noteq> nat (m * 4) + 3" unfolding e using ne by presburger
qed

lemma set_pixel_outside:
  "\<not> (0 \<le> x \<and> x < width \<and> 0 \<le> y \<and> y < height)
   \<Longrightarrow> set_pixel pixels width height x y r g b a = Inr pixels"
  by (simp only: set_pixel_def if_False)

lemma ebind_Inr_iff: "ebind m f = Inr y \<longleftrightarrow> (\<exists>v. m = Inr v \<and> f v = Inr y)"
  by (cases m) simp_all

lemma getitem_Inr:
  assumes "getitem pixels j = Inr v" "0 \<le> j"
  shows "nat j < length pixels" and "v = uint (pixels ! nat j)"
  using assms by (auto simp: getitem_def py_index_def Let_def split: if_splits)

lemma setitem_Inr:
  assumes "setitem pixels j v = Inr p" "0 \<le> j"
  shows "p = pixels[nat j := word_of_int v]"
  using assms by (auto simp: setitem_def py_index_def Let_def split: if_splits)

text \<open>
  Whatever the colour, a call that hits the canvas and returns has written the three colour
  bytes and the alpha byte of its pixel, and the alpha byte holds \<open>alpha_step\<close> of the old
  alpha.
\<close>

lemma set_pixel_shape:
  assumes xy: "0 \<le> x" "x < width" "0 \<le> y" "y < height"
    and sp: "set_pixel pixels width height x y r g b a = Inr pixels'"
  shows "\<exists>i c0 c1 c2.
           i = nat ((y * width + x) * 4) \<and> i + 3 < length pixels
           \<and> pixels' = pixels[i := c0, i + 1 := c1, i + 2 := c2,
                              i + 3 := word_of_int (alpha_step (uint (pixels ! (i + 3))) a)]"
proof -
  define j where "j = (y * width + x) * 4"
  define i where "i = nat j"
  have j0: "0 \<le> j" using xy by (simp add: j_def)
  have nj: "nat j = i" "nat (j + 1) = i + 1" "nat (j + 2) = i + 2" "nat (j + 3) = i + 3"
    using j0 by (simp_all add: i_def nat_add_distrib)
  have jk: "0 \<le> j + 1" "0 \<le> j + 2" "0 \<le> j + 3" using j0 by simp_all
  have c: "(0 \<le> x \<and> x < width \<and> 0 \<le> y \<and> y < height) = True" using xy by simp
  have "ebind (getitem pixels (j + 3)) (\<lambda>old_a.
         if old_a = 0 then
           ebind (setitem pixels j r) (\<lambda>p1.
           ebind (setitem p1 (j + 1) g) (\<lambda>p2.
           ebind (setitem p2 (j + 2) b) (\<lambda>p3.
           setitem p3 (j + 3) a)))
         else
           ebind (num_truediv (PyInt a) (PyFloat (Fin 255))) (\<lambda>fa.
           ebind (blend_channel pixels j r fa) (\<lambda>v0.
           ebind (setitem pixels j v0) (\<lambda>p1.
           ebind (blend_channel p1 (j + 1) g fa) (\<lambda>v1.
           ebind (setitem p1 (j + 1) v1) (\<lambda>p2.
           ebind (blend_channel p2 (j + 2) b fa) (\<lambda>v2.
           ebind (setitem p2 (j + 2) v2) (\<lambda>p3.
           setitem p3 (j + 3) (min 255 (old_a + a))))))))))
        = Inr pixels'"
    using sp unfolding set_pixel_def Let_def j_def [symmetric] c if_True .
  then obtain old where get: "getitem pixels (j + 3) = Inr old"
    and body: "(if old = 0 then
           ebind (setitem pixels j r) (\<lambda>p1.
           ebind (setitem p1 (j + 1) g) (\<lambda>p2.
           ebind (setitem p2 (j + 2) b) (\<lambda>p3.
           setitem p3 (j + 3) a)))
         else
           ebind (num_truediv (PyInt a) (PyFloat (Fin 255))) (\<lambda>fa.
           ebind (blend_channel pixels j r fa) (\<lambda>v0.
           ebind (setitem pixels j v0) (\<lambda>p1.
           ebind (blend_channel p1 (j + 1) g fa) (\<lambda>v1.
           ebind (setitem p1 (j + 1) v1) (\<lambda>p2.
           ebind (blend_channel p2 (j + 2) b fa) (\<lambda>v2.
           ebind (setitem p2 (j + 2) v2) (\<lambda>p3.
           setitem p3 (j + 3) (min 255 (old + a))))))))))
        = Inr pixels'"
    unfolding ebind_Inr_iff [of "getitem pixels (j + 3)"] by blast
  have len: "i + 3 < length pixels" and old: "old = uint (pixels ! (i + 3))"
    using getitem_Inr [OF get jk(3)] by (simp_all add: nj)
  have "\<exists>c0 c1 c2. pixels' = pixels[i := c0, i + 1 := c1, i + 2 := c2,
                                     i + 3 := word_of_int (alpha_step old a)]"
  proof (cases "old = 0")
    case True
    with body obtain p1 p2 p3 where s: "setitem pixels j r = Inr p1"
      "setitem p1 (j + 1) g = Inr p2" "setitem p2 (j + 2) b = Inr p3"
      "setitem p3 (j + 3) a = Inr pixels'"
      by (auto simp: ebind_Inr_iff)
    have "pixels' = pixels[i := word_of_int r, i + 1 := word_of_int g, i + 2 := word_of_int b,
                           i + 3 := word_of_int a]"
      using setitem_Inr [OF s(1) j0] setitem_Inr [OF s(2) jk(1)] setitem_Inr [OF s(3) jk(2)]
        setitem_Inr [OF s(4) jk(3)]
      by (simp add: nj)
    then show ?thesis using True by (auto simp: alpha_step_def)
  next
    case False
    with body obtain v0 p1 v1 p2 v2 p3 where s: "setitem pixels j v0 = Inr p1"
      "setitem p1 (j + 1) v1 = Inr p2" "setitem p2 (j + 2) v2 = Inr p3"
      "setitem p3 (j + 3) (min 255 (old + a)) = Inr pixels'"
      by (auto simp: ebind_Inr_iff simp del: num_truediv.simps)
    have "pixels' = pixels[i := word_of_int v0, i + 1 := word_of_int v1, i + 2 := word_of_int v2,
                           i + 3 := word_of_int (min 255 (old + a))]"
      using setitem_Inr [OF s(1) j0] setitem_Inr [OF s(2) jk(1)] setitem_Inr [OF s(3) jk(2)]
        setitem_Inr [OF s(4) jk(3)]
      by (simp add: nj)
    then show ?thesis using False by (auto simp: alpha_step_def)
  qed
  then show ?thesis using len unfolding old i_def j_def by blast
qed

lemma alpha_at_range: "0 \<le> alpha_at pixels width x y" "alpha_at pixels width x y \<le> 255"
  unfolding alpha_at_def by (rule uint_byte_range)+

lemma set_pixel_alpha_Inr:
  assumes a: "0 \<le> a" "a \<le> 255"
    and p: "0 \<le> px" "px < width" "0 \<le> py" "py < height"
    and sp: "set_pixel pixels width height x y r g b a = Inr pixels'"
  shows "length pixels' = length pixels"
    and "alpha_at pixels' width px py
         = (if x = px \<and> y = py then alpha_step (alpha_at pixels width px py) a
            else alpha_at pixels width px py)"
proof -
  have "length pixels' = length pixels
        \<and> alpha_at pixels' width px py
           = (if x = px \<and> y = py then alpha_step (alpha_at pixels width px py) a
              else alpha_at pixels width px py)"
  proof (cases "0 \<le> x \<and> x < width \<and> 0 \<le> y \<and> y < height")
    case False
    then have "set_pixel pixels width height x y r g b a = Inr pixels"
      by (rule set_pixel_outside)
    then have "pixels' = pixels" using sp by simp
    moreover have "\<not> (x = px \<and> y = py)" using False p by auto
    ultimately show ?thesis by auto
  next
    case True
    then have xy: "0 \<le> x" "x < width" "0 \<le> y" "y < height" by simp_all
    define i where "i = nat ((y * width + x) * 4)"
    define k where "k = nat ((py * width + px) * 4 + 3)"
    define old where "old = uint (pixels ! (i + 3))"
    obtain c0 c1 c2 where len: "i + 3 < length pixels"
      and upd: "pixels' = pixels[i := c0, i + 1 := c1, i + 2 := c2,
                                 i + 3 := word_of_int (alpha_step old a)]"
      using set_pixel_shape [OF xy sp] unfolding i_def old_def by blast
    have oldr: "0 \<le> old" "old \<le> 255"
      unfolding old_def by (rule uint_byte_range)+
    have i0: "0 \<le> (y * width + x) * 4" using pixel_index_bound(1) [OF xy] by simp
    have "alpha_at pixels' width px py
           = (if x = px \<and> y = py then alpha_step (alpha_at pixels width px py) a
              else alpha_at pixels width px py)"
    proof (cases "x = px \<and> y = py")
      case True
      then have ki: "k = i + 3" using i0 by (simp add: k_def i_def nat_add_distrib)
      have "uint (pixels' ! (i + 3)) = alpha_step old a"
        using len alpha_step_range(2,3) [OF oldr a] by (simp add: upd uint_word_byte)
      then show ?thesis
        unfolding alpha_at_def k_def [symmetric] using True by (simp add: ki old_def)
    next
      case False
      have ne: "y * width + x \<noteq> py * width + px"
        using pixel_index_inj [OF xy(1,2) p(1,2)] False by blast
      have "k \<noteq> i" "k \<noteq> i + 1" "k \<noteq> i + 2" "k \<noteq> i + 3"
        unfolding k_def i_def
        using alpha_index_distinct [OF pixel_index_bound(1) [OF xy] pixel_index_bound(1) [OF p] ne]
        by blast+
      then have "pixels' ! k = pixels ! k" by (simp add: upd)
      then show ?thesis
        unfolding alpha_at_def k_def [symmetric] using False by auto
    qed
    then show ?thesis by (simp add: upd)
  qed
  then show "length pixels' = length pixels"
    and "alpha_at pixels' width px py
         = (if x = px \<and> y = py then alpha_step (alpha_at pixels width px py) a
            else alpha_at pixels width px py)"
    by simp_all
qed

lemma set_pixels_Nil [simp]: "set_pixels pixels width height [] = Inr pixels"
  by (simp add: set_pixels_def)

lemma set_pixels_Cons:
  "set_pixels pixels width height ((x, y, r, g, b, a) # calls) =
     ebind (set_pixel pixels width height x y r g b a) (\<lambda>p. set_pixels p width height calls)"
  by (simp add: set_pixels_def)

lemma set_pixels_alpha_steps:
  assumes "\<forall>(x, y, r, g, b, a) \<in> set calls. 0 \<le> a \<and> a \<le> 255"
    and "0 \<le> px" "px < width" "0 \<le> py" "py < height"
    and "set_pixels pixels width height calls = Inr pixels'"
  shows "alpha_at pixels' width px py
           = foldl alpha_step (alpha_at pixels width px py)
               (map (\<lambda>(x, y, r, g, b, a). a) (filter (\<lambda>(x, y, r, g, b, a). x = px \<and> y = py) calls))
         \<and> alpha_at pixels width px py \<le> alpha_at pixels' width px py"
  using assms(1,6)
proof (induction calls arbitrary: pixels)
  case Nil
  then show ?case by simp
next
  case (Cons c calls)
  obtain x y r g b a where c: "c = (x, y, r, g, b, a)" by (cases c)
  have a: "0 \<le> a" "a \<le> 255" using Cons.prems(1) by (simp_all add: c)
  obtain p1 where p1: "set_pixel pixels width height x y r g b a = Inr p1"
    and rest: "set_pixels p1 width height calls = Inr pixels'"
    using Cons.prems(2) unfolding c set_pixels_Cons ebind_Inr_iff by blast
  note step = set_pixel_alpha_Inr [OF a assms(2-5) p1]
  have mono1: "alpha_at pixels width px py \<le> alpha_at p1 width px py"
    using alpha_step_range(1) [OF alpha_at_range a, of pixels width px py]
    by (simp add: step(2))
  have "\<forall>(x, y, r, g, b, a) \<in> set calls. 0 \<le> a \<and> a \<le> 255"
    using Cons.prems(1) by simp
  then have ih: "alpha_at pixels' width px py
       = foldl alpha_step (alpha_at p1 width px py)
           (map (\<lambda>(x, y, r, g, b, a). a) (filter (\<lambda>(x, y, r, g, b, a). x = px \<and> y = py) calls))"
    "alpha_at p1 width px py \<le> alpha_at pixels' width px py"
    using Cons.IH [OF _ rest] by blast+
  have "alpha_at pixels' width px py
       = foldl alpha_step (alpha_at pixels width px py)
           (map (\<lambda>(x, y, r, g, b, a). a)
                (filter (\<lambda>(x, y, r, g, b, a). x = px \<and> y = py) (c # calls)))"
    by (simp add: c ih(1) step(2))
  moreover have "alpha_at pixels width px py \<le> alpha_at pixels' width px py"
    using mono1 ih(2) by linarith
  ultimately show ?case by blast
qed

lemma set_pixels_returns:
  assumes "\<forall>(x, y, r, g, b, a) \<in> set calls.
             0 \<le> r \<and> r \<le> 255 \<and> 0 \<le> g \<and> g \<le> 255 \<and> 0 \<le> b \<and> b \<le> 255 \<and> 0 \<le> a \<and> a \<le> 255"
    and "width * height * 4 \<le> int (length pixels)"
  shows "\<exists>pixels'. set_pixels pixels width height calls = Inr pixels'"
  using assms
proof (induction calls arbitrary: pixels)
  case Nil
  then show ?case by simp
next
  case (Cons c calls)
  obtain x y r g b a where c: "c = (x, y, r, g, b, a)" by (cases c)
  have col: "0 \<le> r" "r \<le> 255" "0 \<le> g" "g \<le> 255" "0 \<le> b" "b \<le> 255" "0 \<le> a" "a \<le> 255"
    using Cons.prems(1) by (simp_all add: c)
  have "\<exists>p1. set_pixel pixels width height x y r g b a = Inr p1 \<and> length p1 = length pixels"
  proof (cases "0 \<le> x \<and> x < width \<and> 0 \<le> y \<and> y < height")
    case False
    then show ?thesis using set_pixel_outside [of x width y height pixels r g b a] by simp
  next
    case True
    then have xy: "0 \<le> x" "x < width" "0 \<le> y" "y < height" by simp_all
    have "nat ((y * width + x) * 4) + 3 < length pixels"
      using xy Cons.prems(2) by (rule pixel_in_buffer)
    with xy have "set_pixel pixels width height x y r g b a
                  = Inr (composite pixels (nat ((y * width + x) * 4)) r g b a)"
      using col by (rule set_pixel_composite)
    then show ?thesis by simp
  qed
  then obtain p1 where p1: "set_pixel pixels width height x y r g b a = Inr p1"
    "length p1 = length pixels" by blast
  have "\<forall>(x, y, r, g, b, a) \<in> set calls.
             0 \<le> r \<and> r \<le> 255 \<and> 0 \<le> g \<and> g \<le> 255 \<and> 0 \<le> b \<and> b \<le> 255 \<and> 0 \<le> a \<and> a \<le> 255"
    using Cons.prems(1) by simp
  moreover have "width * height * 4 \<le> int (length p1)" using p1(2) Cons.prems(2) by simp
  ultimately obtain p2 where "set_pixels p1 width height calls = Inr p2"
    using Cons.IH by blast
  then show ?case by (simp add: c set_pixels_Cons p1(1))
qed

text \<open>
  Claim C4, as amended. Take a pixel of the canvas and a sequence of \<^verbatim>\<open>set_pixel\<close> calls with
  integer arguments whose alphas are in \<open>[0, 255]\<close>. If the sequence runs to its end without
  raising, the stored alpha of the pixel is the fold of \<open>alpha_step\<close> over the alphas of the
  calls that hit the pixel: a call sets the alpha to its own alpha when the old alpha is 0
  and to \<open>min 255 (old_a + a)\<close> otherwise; the final alpha is at least the alpha before the
  sequence and at most 255. This holds for every colour and every buffer. The sequence does
  run to its end when the colour channels are in \<open>[0, 255]\<close> too and the buffer has at least
  \<open>width * height * 4\<close> bytes.
\<close>

theorem set_pixels_alpha:
  assumes "\<forall>(x, y, r, g, b, a) \<in> set calls. 0 \<le> a \<and> a \<le> 255"
    and "0 \<le> px" "px < width" "0 \<le> py" "py < height"
  shows "(\<forall>pixels'. set_pixels pixels width height calls = Inr pixels' \<longrightarrow>
            alpha_at pixels' width px py
              = foldl alpha_step (alpha_at pixels width px py)
                  (map (\<lambda>(x, y, r, g, b, a). a)
                       (filter (\<lambda>(x, y, r, g, b, a). x = px \<and> y = py) calls))
            \<and> alpha_at pixels width px py \<le> alpha_at pixels' width px py
            \<and> alpha_at pixels' width px py \<le> 255)
         \<and> ((\<forall>(x, y, r, g, b, a) \<in> set calls.
                0 \<le> r \<and> r \<le> 255 \<and> 0 \<le> g \<and> g \<le> 255 \<and> 0 \<le> b \<and> b \<le> 255)
             \<and> width * height * 4 \<le> int (length pixels)
             \<longrightarrow> (\<exists>pixels'. set_pixels pixels width height calls = Inr pixels'))"
proof (intro conjI allI impI)
  fix pixels'
  assume r: "set_pixels pixels width height calls = Inr pixels'"
  note s = set_pixels_alpha_steps [OF assms r]
  show "alpha_at pixels' width px py
          = foldl alpha_step (alpha_at pixels width px py)
              (map (\<lambda>(x, y, r, g, b, a). a)
                   (filter (\<lambda>(x, y, r, g, b, a). x = px \<and> y = py) calls))"
    using s by blast
  show "alpha_at pixels width px py \<le> alpha_at pixels' width px py"
    using s by blast
  show "alpha_at pixels' width px py \<le> 255" by (rule alpha_at_range)
next
  assume h: "(\<forall>(x, y, r, g, b, a) \<in> set calls.
                0 \<le> r \<and> r \<le> 255 \<and> 0 \<le> g \<and> g \<le> 255 \<and> 0 \<le> b \<and> b \<le> 255)
             \<and> width * height * 4 \<le> int (length pixels)"
  have "\<forall>(x, y, r, g, b, a) \<in> set calls.
             0 \<le> r \<and> r \<le> 255 \<and> 0 \<le> g \<and> g \<le> 255 \<and> 0 \<le> b \<and> b \<le> 255 \<and> 0 \<le> a \<and> a \<le> 255"
    using h assms(1) by fastforce
  then show "\<exists>pixels'. set_pixels pixels width height calls = Inr pixels'"
    using h by (intro set_pixels_returns) simp_all
qed

theorem set_pixels_alpha_witness:
  "\<exists>pixels'.
     set_pixels [0, 0, 0, 0] 1 1 [(0, 0, 10, 20, 30, 100), (5, 5, 1, 2, 3, 4), (0, 0, 10, 20, 30, 200)]
       = Inr pixels'
     \<and> alpha_at pixels' 1 0 0 = 255
     \<and> alpha_at [0, 0, 0, 0] 1 0 0 \<le> alpha_at pixels' 1 0 0
     \<and> alpha_at pixels' 1 0 0 \<le> 255"
  using set_pixels_alpha [of
      "[(0, 0, 10, 20, 30, 100), (5, 5, 1, 2, 3, 4), (0, 0, 10, 20, 30, 200)]" 0 1 0 1
      "[0, 0, 0, 0]"]
  by (simp add: alpha_step_def alpha_at_def) blast

text \<open>
  Claim C4 as stated, for every sequence of calls with alphas in \<open>[0, 255]\<close>: on a
  transparent pixel a call with red channel 300 and alpha 100 raises \<^verbatim>\<open>ValueError\<close> at the
  first store, so the alpha does not become the call's alpha.
\<close>

theorem set_pixels_alpha_counterexample:
  "set_pixels [0, 0, 0, 0] 1 1 [(0, 0, 300, 0, 0, 100)] = Inl ValueError"
  by (simp add: set_pixels_def set_pixel_def getitem_def setitem_def py_index_def)


section \<open>Properties of the rasterizer\<close>

subsection \<open>Degenerate lines\<close>

lemma float_sqrt_0 [simp]: "float_sqrt 0 = 0"
  by (simp add: float_sqrt_def)

lemma fl_of_int:
  assumes "\<bar>n\<bar> \<le> 2 ^ 53"
  shows "fl (of_int n) = Fin (of_int n)"
  using assms by (intro fl_exact is_float_of_int)

lemma num_sub_self:
  assumes "finite_num x"
  shows "num_sub x x = Inr (PyInt 0) \<or> num_sub x x = Inr (PyFloat (Fin 0))"
proof (cases x)
  case (PyInt n)
  then show ?thesis by simp
next
  case (PyFloat f)
  with assms obtain v where "f = Fin v" by (cases f) simp_all
  with PyFloat show ?thesis by (simp add: float_op_def float_sub_def)
qed

lemma zero_length:
  assumes "dx = PyInt 0 \<or> dx = PyFloat (Fin 0)" "dy = PyInt 0 \<or> dy = PyFloat (Fin 0)"
  shows "ebind (num_mul dx dx) (\<lambda>dx2.
         ebind (num_mul dy dy) (\<lambda>dy2.
         ebind (num_add dx2 dy2) (\<lambda>l2.
         math_sqrt l2))) = Inr (PyFloat (Fin 0))"
  using assms by (auto simp: float_op_def math_sqrt_def)

text \<open>
  Claim C8, as amended. When the two end points are the same point and its coordinates are
  integers or finite floats, \<^verbatim>\<open>draw_thick_line\<close> computes the length 0 and returns at once:
  the buffer is returned as it was, for every buffer, canvas size, thickness and colour.
\<close>

theorem draw_thick_line_degenerate:
  assumes "finite_num x1" "finite_num y1"
  shows "draw_thick_line c_pow pixels width height x1 y1 x1 y1 thickness r g b a = Inr pixels"
proof -
  obtain dx where dx: "num_sub x1 x1 = Inr dx" "dx = PyInt 0 \<or> dx = PyFloat (Fin 0)"
    using num_sub_self [OF assms(1)] by blast
  obtain dy where dy: "num_sub y1 y1 = Inr dy" "dy = PyInt 0 \<or> dy = PyFloat (Fin 0)"
    using num_sub_self [OF assms(2)] by blast
  have "ebind (num_mul dx dx) (\<lambda>dx2.
        ebind (num_mul dy dy) (\<lambda>dy2.
        ebind (num_add dx2 dy2) (\<lambda>l2.
        math_sqrt l2))) = Inr (PyFloat (Fin 0))"
    using dx(2) dy(2) by (rule zero_length)
  then obtain dx2 dy2 l2 where l: "num_mul dx dx = Inr dx2" "num_mul dy dy = Inr dy2"
    "num_add dx2 dy2 = Inr l2" "math_sqrt l2 = Inr (PyFloat (Fin 0))"
    unfolding ebind_Inr_iff by blast
  show ?thesis
    unfolding draw_thick_line_def by (simp add: dx(1) dy(1) l num_eq_def)
qed

theorem draw_thick_line_degenerate_witness:
  "draw_thick_line (\<lambda>x. Inr (fl (x * x))) [1, 2, 3, 4] 1 1
     (PyFloat (Fin (5 / 2))) (PyInt 3) (PyFloat (Fin (5 / 2))) (PyInt 3) (PyInt 8) 1 2 3 4
   = Inr [1, 2, 3, 4]"
  using draw_thick_line_degenerate [of "PyFloat (Fin (5 / 2))" "PyInt 3" "\<lambda>x. Inr (fl (x * x))"
      "[1, 2, 3, 4]" 1 1 "PyInt 8" 1 2 3 4]
  by simp

text \<open>
  Claim C8 as stated, for every pair of identical end points: when both x coordinates are
  the float infinity, \<open>dx\<close> is NaN, so is the length, the test \<^verbatim>\<open>length == 0\<close> fails, and
  \<^verbatim>\<open>int(min(x1, x2) - half_t)\<close> raises \<^verbatim>\<open>OverflowError\<close>.
\<close>

theorem draw_thick_line_degenerate_counterexample:
  "\<forall>c_pow. draw_thick_line c_pow [0, 0, 0, 0] 1 1
             (PyFloat PInf) (PyFloat (Fin 0)) (PyFloat PInf) (PyFloat (Fin 0)) (PyInt 8) 1 2 3 4
           = Inl OverflowError"
proof -
  have f: "fl 4 = Fin 4" "fl 5 = Fin 5" "fl 1 = Fin 1" "fl 2 = Fin 2" "fl 8 = Fin 8"
    using fl_of_int [of 4] fl_of_int [of 5] fl_of_int [of 1] fl_of_int [of 2] fl_of_int [of 8]
    by simp_all
  show ?thesis
    unfolding draw_thick_line_def
    by (simp add: float_op_def float_sub_def math_sqrt_def num_eq_def float_truediv_def
        py_min_def py_max_def num_less_def f)
qed


section \<open>Properties of the scene\<close>

subsection \<open>Loops and pixels\<close>

text \<open>
  A loop all of whose steps return keeps an invariant \<open>I\<close>, which may speak of the items
  already processed.
\<close>

lemma efoldl_rule_aux:
  assumes "\<And>x done s. x \<in> set xs \<Longrightarrow> I done s \<Longrightarrow> \<exists>s'. f s x = Inr s' \<and> I (done @ [x]) s'"
    and "I pre s"
  shows "\<exists>s'. efoldl f s xs = Inr s' \<and> I (pre @ xs) s'"
  using assms
proof (induction xs arbitrary: pre s)
  case Nil
  then show ?case by simp
next
  case (Cons x xs)
  obtain s1 where s1: "f s x = Inr s1" "I (pre @ [x]) s1"
    using Cons.prems(1) [of x pre s] Cons.prems(2) by auto
  have "\<exists>s'. efoldl f s1 xs = Inr s' \<and> I ((pre @ [x]) @ xs) s'"
    using Cons.prems(1) s1(2) by (intro Cons.IH) auto
  then show ?case by (simp add: s1(1))
qed

lemma efoldl_rule:
  assumes "\<And>x done s. x \<in> set xs \<Longrightarrow> I done s \<Longrightarrow> \<exists>s'. f s x = Inr s' \<and> I (done @ [x]) s'"
    and "I [] s"
  shows "\<exists>s'. efoldl f s xs = Inr s' \<and> I xs s'"
  using efoldl_rule_aux [of xs I f "[]" s] assms by simp

lemma pixel_bytes_distinct:
  fixes m n :: nat
  assumes "m \<noteq> n" "a < 4" "b < 4"
  shows "n * 4 + a \<noteq> m * 4 + b"
  using assms by presburger

lemma pixel_number:
  assumes "0 \<le> x" "x < width" "0 \<le> y"
  shows "nat ((y * width + x) * 4) = nat (y * width + x) * 4"
  using assms by (simp add: nat_mult_distrib)

text \<open>Writing the four bytes of one pixel of the canvas changes that pixel and no other.\<close>

lemma pixel_at_update:
  assumes xy: "0 \<le> x" "x < width" "0 \<le> y"
    and p: "0 \<le> px" "px < width" "0 \<le> py"
    and i: "i = nat ((y * width + x) * 4)" "i + 3 < length pixels"
  shows "pixel_at (pixels[i := c0, i + 1 := c1, i + 2 := c2, i + 3 := c3]) width px py
         = (if px = x \<and> py = y then (uint c0, uint c1, uint c2, uint c3)
            else pixel_at pixels width px py)"
proof (cases "px = x \<and> py = y")
  case True
  then show ?thesis using i by (simp add: pixel_at_def Let_def)
next
  case False
  define m where "m = nat (y * width + x)"
  define n where "n = nat (py * width + px)"
  have "y * width + x \<noteq> py * width + px"
    using pixel_index_inj [OF xy(1,2) p(1,2)] False by blast
  moreover have "0 \<le> y * width + x" "0 \<le> py * width + px" using xy p by simp_all
  ultimately have mn: "m \<noteq> n" by (simp add: m_def n_def)
  have im: "i = m * 4" unfolding i(1) m_def using xy by (rule pixel_number)
  have k: "nat ((py * width + px) * 4) = n * 4" unfolding n_def using p by (rule pixel_number)
  have d: "n * 4 + b \<noteq> m * 4 + a" if "a < 4" "b < 4" for a b
    using pixel_bytes_distinct [OF mn that(2) that(1)] .
  have "n * 4 \<noteq> m * 4" "n * 4 \<noteq> m * 4 + 1" "n * 4 \<noteq> m * 4 + 2" "n * 4 \<noteq> m * 4 + 3"
    "n * 4 + 1 \<noteq> m * 4" "n * 4 + 1 \<noteq> m * 4 + 1" "n * 4 + 1 \<noteq> m * 4 + 2" "n * 4 + 1 \<noteq> m * 4 + 3"
    "n * 4 + 2 \<noteq> m * 4" "n * 4 + 2 \<noteq> m * 4 + 1" "n * 4 + 2 \<noteq> m * 4 + 2" "n * 4 + 2 \<noteq> m * 4 + 3"
    "n * 4 + 3 \<noteq> m * 4" "n * 4 + 3 \<noteq> m * 4 + 1" "n * 4 + 3 \<noteq> m * 4 + 2" "n * 4 + 3 \<noteq> m * 4 + 3"
    using d [of 0 0] d [of 1 0] d [of 2 0] d [of 3 0] d [of 0 1] d [of 1 1] d [of 2 1] d [of 3 1]
      d [of 0 2] d [of 1 2] d [of 2 2] d [of 3 2] d [of 0 3] d [of 1 3] d [of 2 3] d [of 3 3]
    by simp_all
  then have "pixel_at (pixels[m * 4 := c0, m * 4 + 1 := c1, m * 4 + 2 := c2, m * 4 + 3 := c3])
               width px py = pixel_at pixels width px py"
    unfolding pixel_at_def Let_def k by simp
  then show ?thesis using False by (auto simp: im)
qed

subsection \<open>The gradient\<close>

lemma py_int_mono: "0 \<le> x \<Longrightarrow> x \<le> y \<Longrightarrow> py_int x \<le> py_int y"
  by (simp add: py_int_def floor_mono)

lemma gradient_value_mono:
  assumes "0 \<le> y" "y \<le> y'" "0 \<le> base"
  shows "gradient_value base y \<le> gradient_value base y'"
proof -
  have "(of_int y :: rat) / 400 \<le> of_int y' / 400" using assms by (simp add: divide_right_mono)
  then have a: "float_round (of_int y / 400) \<le> float_round (of_int y' / 400)"
    by (rule float_round_mono)
  have t0: "0 \<le> float_round (of_int y / 400)" using assms by (intro float_round_nonneg) simp
  have "float_round (float_round (of_int y / 400) * 6)
        \<le> float_round (float_round (of_int y' / 400) * 6)"
    using a by (intro float_round_mono) simp
  then have b: "float_round (of_int base + float_round (float_round (of_int y / 400) * 6))
        \<le> float_round (of_int base + float_round (float_round (of_int y' / 400) * 6))"
    by (intro float_round_mono) simp
  have "0 \<le> float_round (float_round (of_int y / 400) * 6)"
    using t0 by (intro float_round_nonneg) simp
  then have "0 \<le> float_round (of_int base + float_round (float_round (of_int y / 400) * 6))"
    using assms by (intro float_round_nonneg) simp
  then show ?thesis unfolding gradient_value_def using b by (rule py_int_mono)
qed

lemma gradient_value_between:
  assumes "0 \<le> lo" "lo \<le> y" "y \<le> hi" "0 \<le> base"
    and "gradient_value base lo = v" "gradient_value base hi = v"
  shows "gradient_value base y = v"
proof -
  have "gradient_value base lo \<le> gradient_value base y"
    using assms(1,2,4) by (rule gradient_value_mono)
  moreover have "gradient_value base y \<le> gradient_value base hi"
    using assms(1-4) by (intro gradient_value_mono) simp_all
  ultimately show ?thesis using assms(5,6) by simp
qed

lemma gradient_value_42:
  "gradient_value 42 0 = 42" "gradient_value 42 66 = 42"
  "gradient_value 42 67 = 43" "gradient_value 42 133 = 43"
  "gradient_value 42 134 = 44" "gradient_value 42 199 = 44"
  "gradient_value 42 200 = 45" "gradient_value 42 266 = 45"
  "gradient_value 42 267 = 46" "gradient_value 42 333 = 46"
  "gradient_value 42 334 = 47" "gradient_value 42 399 = 47"
  by code_simp+

lemma gradient_value_45:
  "gradient_value 45 0 = 45" "gradient_value 45 66 = 45"
  "gradient_value 45 67 = 46" "gradient_value 45 133 = 46"
  "gradient_value 45 134 = 47" "gradient_value 45 199 = 47"
  "gradient_value 45 200 = 48" "gradient_value 45 266 = 48"
  "gradient_value 45 267 = 49" "gradient_value 45 333 = 49"
  "gradient_value 45 334 = 50" "gradient_value 45 399 = 50"
  by code_simp+

text \<open>
  The stored channel is the integer part of the exact interpolation \<open>base + 6 * y / 400\<close>:
  the float rounding never crosses an integer.
\<close>

lemma gradient_value_floor:
  assumes "0 \<le> y" "y < 400" "base = 42 \<or> base = 45"
  shows "gradient_value base y = base + 6 * y div 400"
proof -
  consider "y \<le> 66" | "67 \<le> y" "y \<le> 133" | "134 \<le> y" "y \<le> 199" | "200 \<le> y" "y \<le> 266"
    | "267 \<le> y" "y \<le> 333" | "334 \<le> y"
    by linarith
  then show ?thesis
  proof cases
    case 1
    have d: "6 * y div 400 = 0" using assms(1) 1 by simp
    have "gradient_value base y = base"
      using assms(3) gradient_value_between [of 0 y 66 base base] assms(1) 1
      by (auto simp: gradient_value_42 gradient_value_45)
    then show ?thesis by (simp add: d)
  next
    case 2
    have d: "6 * y div 400 = 1" using 2 by simp
    have "gradient_value base y = base + 1"
      using assms(3) gradient_value_between [of 67 y 133 base "base + 1"] 2
      by (auto simp: gradient_value_42 gradient_value_45)
    then show ?thesis by (simp add: d)
  next
    case 3
    have d: "6 * y div 400 = 2" using 3 by simp
    have "gradient_value base y = base + 2"
      using assms(3) gradient_value_between [of 134 y 199 base "base + 2"] 3
      by (auto simp: gradient_value_42 gradient_value_45)
    then show ?thesis by (simp add: d)
  next
    case 4
    have d: "6 * y div 400 = 3" using 4 by simp
    have "gradient_value base y = base + 3"
      using assms(3) gradient_value_between [of 200 y 266 base "base + 3"] 4
      by (auto simp: gradient_value_42 gradient_value_45)
    then show ?thesis by (simp add: d)
  next
    case 5
    have d: "6 * y div 400 = 4" using 5 by simp
    have "gradient_value base y = base + 4"
      using assms(3) gradient_value_between [of 267 y 333 base "base + 4"] 5
      by (auto simp: gradient_value_42 gradient_value_45)
    then show ?thesis by (simp add: d)
  next
    case 6
    have d: "6 * y div 400 = 5" using 6 assms(2) by simp
    have "gradient_value base y = base + 5"
      using assms(3) gradient_value_between [of 334 y 399 base "base + 5"] 6 assms(2)
      by (auto simp: gradient_value_42 gradient_value_45)
    then show ?thesis by (simp add: d)
  qed
qed

lemma gradient_t:
  assumes "0 \<le> y" "y < 400"
  shows "num_truediv (PyInt y) (PyInt HEIGHT) = Inr (PyFloat (Fin (float_round (of_int y / 400))))"
proof -
  have "\<bar>of_int y / 400 :: rat\<bar> \<le> 1" using assms by simp
  then have "fl (of_int y / 400) = Fin (float_round (of_int y / 400))"
    by (rule fl_float_round) simp
  then show ?thesis by (simp add: HEIGHT_def)
qed

lemma gradient_channel_value:
  assumes "0 \<le> y" "y < 400" "0 \<le> base" "base \<le> 255"
  shows "gradient_channel base (PyFloat (Fin (float_round (of_int y / 400))))
         = Inr (gradient_value base y)"
proof -
  let ?t = "float_round (of_int y / 400)"
  have t: "0 \<le> ?t" "?t \<le> 1"
  proof -
    show "0 \<le> ?t" using assms by (intro float_round_nonneg) simp
    have "(of_int y :: rat) / 400 \<le> 1" using assms by simp
    then show "?t \<le> 1" by (rule float_round_le) simp
  qed
  have "0 \<le> ?t * 6" "?t * 6 \<le> of_int 6" using t by simp_all
  then have d: "fl (?t * 6) = Fin (float_round (?t * 6))" "0 \<le> float_round (?t * 6)"
    "float_round (?t * 6) \<le> of_int 6"
    by (rule fl_bounded_nonneg, simp)+
  have "0 \<le> of_int base + float_round (?t * 6)"
    "of_int base + float_round (?t * 6) \<le> of_int 261"
    using d assms by simp_all
  then have v: "fl (of_int base + float_round (?t * 6))
                = Fin (float_round (of_int base + float_round (?t * 6)))"
    by (rule fl_bounded_nonneg) simp
  have six: "to_float (PyInt 6) = Inr (Fin 6)" using to_float_small [of 6] by simp
  have b: "to_float (PyInt base) = Inr (Fin (of_int base))"
    using assms by (intro to_float_small) simp
  show ?thesis
    using d(1) v
    by (simp add: gradient_channel_def gradient_value_def float_op_def six b
        del: to_float.simps(1))
qed

lemma gradient_pixel_result:
  assumes xy: "0 \<le> x" "x < WIDTH" "0 \<le> y" "y < HEIGHT"
    and len: "WIDTH * HEIGHT * 4 \<le> int (length pixels)"
    and i: "i = nat ((y * WIDTH + x) * 4)"
  shows "gradient_pixel y pixels x
         = Inr (pixels[i := word_of_int (42 + 6 * y div 400),
                       i + 1 := word_of_int (42 + 6 * y div 400),
                       i + 2 := word_of_int (45 + 6 * y div 400),
                       i + 3 := 255])"
    and "i + 3 < length pixels"
proof -
  define j where "j = (y * WIDTH + x) * 4"
  have y4: "0 \<le> y" "y < 400" using xy by (simp_all add: HEIGHT_def)
  have j0: "0 \<le> j" using xy by (simp add: j_def WIDTH_def)
  have nj: "nat j = i" "nat (j + 1) = i + 1" "nat (j + 2) = i + 2" "nat (j + 3) = i + 3"
    using j0 by (simp_all add: i j_def nat_add_distrib)
  have jk: "0 \<le> j + 1" "0 \<le> j + 2" "0 \<le> j + 3" using j0 by simp_all
  show l3: "i + 3 < length pixels"
    unfolding i using xy len by (rule pixel_in_buffer)
  then have l: "i < length pixels" "i + 1 < length pixels" "i + 2 < length pixels" by simp_all
  define d where "d = 6 * y div 400"
  have d: "0 \<le> d" "d \<le> 5" using y4 by (simp_all add: d_def)
  have v: "gradient_value 42 y = 42 + d" "gradient_value 45 y = 45 + d"
    using gradient_value_floor [OF y4, of 42] gradient_value_floor [OF y4, of 45]
    by (simp_all add: d_def)
  have c: "gradient_channel 42 (PyFloat (Fin (float_round (of_int y / 400)))) = Inr (42 + d)"
    "gradient_channel 45 (PyFloat (Fin (float_round (of_int y / 400)))) = Inr (45 + d)"
    using gradient_channel_value [OF y4, of 42] gradient_channel_value [OF y4, of 45]
    by (simp_all add: v)
  define q1 where "q1 = pixels[i := word_of_int (42 + d)]"
  define q2 where "q2 = q1[i + 1 := word_of_int (42 + d)]"
  define q3 where "q3 = q2[i + 2 := word_of_int (45 + d)]"
  have lq: "length q1 = length pixels" "length q2 = length pixels" "length q3 = length pixels"
    by (simp_all add: q1_def q2_def q3_def)
  have s0: "setitem pixels j (42 + d) = Inr q1"
    using setitem_int [OF j0, of pixels "42 + d"] l d by (simp add: nj q1_def)
  have s1: "setitem q1 (j + 1) (42 + d) = Inr q2"
    using setitem_int [OF jk(1), of q1 "42 + d"] l lq d by (simp add: nj q2_def)
  have s2: "setitem q2 (j + 2) (45 + d) = Inr q3"
    using setitem_int [OF jk(2), of q2 "45 + d"] l lq d by (simp add: nj q3_def)
  have s3: "setitem q3 (j + 3) 255 = Inr (q3[i + 3 := 255])"
    using setitem_int [OF jk(3), of q3 255] l3 lq by (simp add: nj)
  have "gradient_pixel y pixels x = Inr (q3[i + 3 := 255])"
    unfolding gradient_pixel_def Let_def j_def [symmetric]
    by (simp add: gradient_t [OF y4] c s0 s1 s2 s3 del: num_truediv.simps)
  then show "gradient_pixel y pixels x
         = Inr (pixels[i := word_of_int (42 + 6 * y div 400),
                       i + 1 := word_of_int (42 + 6 * y div 400),
                       i + 2 := word_of_int (45 + 6 * y div 400),
                       i + 3 := 255])"
    by (simp add: q3_def q2_def q1_def d_def)
qed


lemma gradient_pixel_at:
  assumes xy: "0 \<le> x" "x < WIDTH" "0 \<le> y" "y < HEIGHT"
    and len: "WIDTH * HEIGHT * 4 \<le> int (length s)"
  shows "\<exists>s'. gradient_pixel y s x = Inr s' \<and> length s' = length s
           \<and> (\<forall>px py. 0 \<le> px \<and> px < WIDTH \<and> 0 \<le> py \<longrightarrow>
                 pixel_at s' WIDTH px py
                 = (if px = x \<and> py = y then gradient_colour y else pixel_at s WIDTH px py))"
proof -
  define i where "i = nat ((y * WIDTH + x) * 4)"
  define d where "d = 6 * y div 400"
  have d: "0 \<le> d" "d \<le> 5" using xy by (simp_all add: d_def HEIGHT_def)
  define s' where "s' = s[i := word_of_int (42 + d), i + 1 := word_of_int (42 + d),
                          i + 2 := word_of_int (45 + d), i + 3 := 255]"
  have r: "gradient_pixel y s x = Inr s'" and l: "i + 3 < length s"
    using gradient_pixel_result [OF xy len i_def] by (simp_all add: s'_def d_def)
  have u: "uint (word_of_int (42 + d) :: byte) = 42 + d"
    "uint (word_of_int (45 + d) :: byte) = 45 + d" "uint (255 :: byte) = 255"
    using d by (intro uint_word_byte, simp, simp)+ simp
  have "pixel_at s' WIDTH px py
        = (if px = x \<and> py = y then (42 + d, 42 + d, 45 + d, 255) else pixel_at s WIDTH px py)"
    if "0 \<le> px" "px < WIDTH" "0 \<le> py" for px py
    unfolding s'_def pixel_at_update [OF xy(1-3) that i_def l] u ..
  moreover have "gradient_colour y = (42 + d, 42 + d, 45 + d, 255)"
    by (simp add: gradient_colour_def d_def)
  moreover have "length s' = length s" by (simp add: s'_def)
  ultimately show ?thesis using r by simp
qed

lemma gradient_row:
  assumes y: "0 \<le> y" "y < HEIGHT"
    and len: "WIDTH * HEIGHT * 4 \<le> int (length s)"
  shows "\<exists>s'. efoldl (gradient_pixel y) s [0..WIDTH - 1] = Inr s' \<and> length s' = length s
           \<and> (\<forall>px py. 0 \<le> px \<and> px < WIDTH \<and> 0 \<le> py \<longrightarrow>
                 pixel_at s' WIDTH px py
                 = (if py = y then gradient_colour y else pixel_at s WIDTH px py))"
proof -
  define I where "I = (\<lambda>done s'. length s' = length s
           \<and> (\<forall>px py. 0 \<le> px \<and> px < WIDTH \<and> 0 \<le> py \<longrightarrow>
                 pixel_at s' WIDTH px py
                 = (if py = y \<and> px \<in> set done then gradient_colour y
                    else pixel_at s WIDTH px py)))"
  have step: "\<exists>s''. gradient_pixel y s' x = Inr s'' \<and> I (done @ [x]) s''"
    if "x \<in> set [0..WIDTH - 1]" "I done s'" for x "done" s'
  proof -
    have x: "0 \<le> x" "x < WIDTH" using that(1) by simp_all
    have l: "WIDTH * HEIGHT * 4 \<le> int (length s')" using that(2) len by (simp add: I_def)
    obtain s'' where s'': "gradient_pixel y s' x = Inr s''" "length s'' = length s'"
      "\<forall>px py. 0 \<le> px \<and> px < WIDTH \<and> 0 \<le> py \<longrightarrow>
                 pixel_at s'' WIDTH px py
                 = (if px = x \<and> py = y then gradient_colour y else pixel_at s' WIDTH px py)"
      using gradient_pixel_at [OF x y l] by blast
    have "I (done @ [x]) s''"
      unfolding I_def using s''(2,3) that(2) [unfolded I_def] by auto
    then show ?thesis using s''(1) by blast
  qed
  have "I [] s" by (simp add: I_def)
  with step obtain s' where "efoldl (gradient_pixel y) s [0..WIDTH - 1] = Inr s'"
      "I [0..WIDTH - 1] s'"
    using efoldl_rule [of "[0..WIDTH - 1]" I "gradient_pixel y" s] by blast
  then show ?thesis unfolding I_def by auto
qed

lemma gradient_all:
  assumes len: "WIDTH * HEIGHT * 4 \<le> int (length s)"
  shows "\<exists>s'. gradient s = Inr s' \<and> length s' = length s
           \<and> (\<forall>px py. 0 \<le> px \<and> px < WIDTH \<and> 0 \<le> py \<and> py < HEIGHT \<longrightarrow>
                 pixel_at s' WIDTH px py = gradient_colour py)"
proof -
  define J where "J = (\<lambda>done s'. length s' = length s
           \<and> (\<forall>px py. 0 \<le> px \<and> px < WIDTH \<and> 0 \<le> py \<longrightarrow>
                 pixel_at s' WIDTH px py
                 = (if py \<in> set done then gradient_colour py else pixel_at s WIDTH px py)))"
  have step: "\<exists>s''. efoldl (gradient_pixel y) s' [0..WIDTH - 1] = Inr s'' \<and> J (done @ [y]) s''"
    if "y \<in> set [0..HEIGHT - 1]" "J done s'" for y "done" s'
  proof -
    have y: "0 \<le> y" "y < HEIGHT" using that(1) by simp_all
    have l: "WIDTH * HEIGHT * 4 \<le> int (length s')" using that(2) len by (simp add: J_def)
    obtain s'' where s'': "efoldl (gradient_pixel y) s' [0..WIDTH - 1] = Inr s''"
      "length s'' = length s'"
      "\<forall>px py. 0 \<le> px \<and> px < WIDTH \<and> 0 \<le> py \<longrightarrow>
                 pixel_at s'' WIDTH px py
                 = (if py = y then gradient_colour y else pixel_at s' WIDTH px py)"
      using gradient_row [OF y l] by blast
    have "J (done @ [y]) s''"
      unfolding J_def using s''(2,3) that(2) [unfolded J_def] by auto
    then show ?thesis using s''(1) by blast
  qed
  have "J [] s" by (simp add: J_def)
  with step obtain s' where
      "efoldl (\<lambda>pixels y. efoldl (gradient_pixel y) pixels [0..WIDTH - 1]) s [0..HEIGHT - 1]
       = Inr s'"
      "J [0..HEIGHT - 1] s'"
    using efoldl_rule [of "[0..HEIGHT - 1]" J
        "\<lambda>pixels y. efoldl (gradient_pixel y) pixels [0..WIDTH - 1]" s]
    by blast
  then show ?thesis unfolding J_def gradient_def by auto
qed

lemma gradient_main:
  "\<exists>pixels'. gradient (replicate (nat (WIDTH * HEIGHT * 4)) 0) = Inr pixels'
     \<and> length pixels' = nat (WIDTH * HEIGHT * 4)
     \<and> (\<forall>x y. 0 \<le> x \<and> x < WIDTH \<and> 0 \<le> y \<and> y < HEIGHT \<longrightarrow>
           pixel_at pixels' WIDTH x y = gradient_colour y)"
  using gradient_all [of "replicate (nat (WIDTH * HEIGHT * 4)) 0"]
  by (simp add: WIDTH_def HEIGHT_def)

text \<open>
  Claim C6, as amended. The gradient loops of \<^verbatim>\<open>main\<close>, run on the fresh buffer of
  \<open>660 * 400 * 4\<close> zero bytes, raise nothing, and afterwards every pixel \<open>(x, y)\<close> of the
  canvas holds \<open>(42 + d, 42 + d, 45 + d, 255)\<close> with \<open>d = 6 * y div 400\<close>: the linear
  interpolation \<open>42 + 6 * t\<close>, \<open>45 + 6 * t\<close> at \<open>t = y / 400\<close>, cut to its integer part. The
  top row is \<open>(42, 42, 45)\<close>; the bottom row is \<open>(47, 47, 50)\<close>; no row reaches
  \<open>(48, 48, 51)\<close>. Every alpha is 255.
\<close>

theorem gradient_colours:
  "\<exists>pixels'. gradient (replicate (nat (WIDTH * HEIGHT * 4)) 0) = Inr pixels'
     \<and> length pixels' = nat (WIDTH * HEIGHT * 4)
     \<and> (\<forall>x y. 0 \<le> x \<and> x < WIDTH \<and> 0 \<le> y \<and> y < HEIGHT \<longrightarrow>
           pixel_at pixels' WIDTH x y
           = (42 + 6 * y div 400, 42 + 6 * y div 400, 45 + 6 * y div 400, 255))"
  using gradient_main by (simp add: gradient_colour_def)

theorem gradient_colours_witness:
  "\<exists>pixels'. gradient (replicate (nat (WIDTH * HEIGHT * 4)) 0) = Inr pixels'
     \<and> pixel_at pixels' WIDTH 0 0 = (42, 42, 45, 255)
     \<and> pixel_at pixels' WIDTH 330 200 = (45, 45, 48, 255)
     \<and> pixel_at pixels' WIDTH 659 399 = (47, 47, 50, 255)"
proof -
  obtain pixels' where p: "gradient (replicate (nat (WIDTH * HEIGHT * 4)) 0) = Inr pixels'"
    "\<forall>x y. 0 \<le> x \<and> x < WIDTH \<and> 0 \<le> y \<and> y < HEIGHT \<longrightarrow>
           pixel_at pixels' WIDTH x y
           = (42 + 6 * y div 400, 42 + 6 * y div 400, 45 + 6 * y div 400, 255)"
    using gradient_colours by blast
  have "pixel_at pixels' WIDTH 0 0 = (42, 42, 45, 255)"
    "pixel_at pixels' WIDTH 330 200 = (45, 45, 48, 255)"
    "pixel_at pixels' WIDTH 659 399 = (47, 47, 50, 255)"
    using p(2) [rule_format, of 0 0] p(2) [rule_format, of 330 200]
      p(2) [rule_format, of 659 399]
    by (simp_all add: WIDTH_def HEIGHT_def)
  then show ?thesis using p(1) by blast
qed

text \<open>
  Claim C6 as stated: in the bottom row, \<open>y = 399\<close>, the pixels hold \<open>(47, 47, 50)\<close>, not
  \<open>(48, 48, 51)\<close>: \<^verbatim>\<open>int(42 + (399 / 400) * 6)\<close> is \<^verbatim>\<open>int(47.985)\<close>.
\<close>

theorem gradient_bottom_row_counterexample:
  "\<exists>pixels'. gradient (replicate (nat (WIDTH * HEIGHT * 4)) 0) = Inr pixels'
     \<and> pixel_at pixels' WIDTH 0 399 = (47, 47, 50, 255)"
proof -
  obtain pixels' where p: "gradient (replicate (nat (WIDTH * HEIGHT * 4)) 0) = Inr pixels'"
    "\<forall>x y. 0 \<le> x \<and> x < WIDTH \<and> 0 \<le> y \<and> y < HEIGHT \<longrightarrow>
           pixel_at pixels' WIDTH x y = gradient_colour y"
    using gradient_main by blast
  have "pixel_at pixels' WIDTH 0 399 = (47, 47, 50, 255)"
    using p(2) [rule_format, of 0 399] by (simp add: WIDTH_def HEIGHT_def gradient_colour_def)
  then show ?thesis using p(1) by blast
qed


end
